theory Spec2Isabelle
  imports Complex_Main "HOL-Library.Multiset"
begin

section \<open>Python sequence primitives\<close>

text \<open>
  Python slicing \<^verbatim>\<open>xs[i:j]\<close>: a negative bound counts from the end, and every bound is
  clamped to the sequence, so a slice never raises.
\<close>

definition py_index :: "nat \<Rightarrow> int \<Rightarrow> nat" where
  "py_index n i = (if i < 0 then nat (max 0 (int n + i)) else min n (nat i))"

definition py_slice :: "'a list \<Rightarrow> int \<Rightarrow> int \<Rightarrow> 'a list" where
  "py_slice xs i j =
     (let n = length xs; a = py_index n i; b = py_index n j
      in take (b - a) (drop a xs))"

text \<open>\<^verbatim>\<open>xs[:j]\<close>\<close>

definition py_prefix :: "'a list \<Rightarrow> int \<Rightarrow> 'a list" where
  "py_prefix xs j = py_slice xs 0 j"

text \<open>The exceptions the modelled code can raise, as values.\<close>

datatype py_error =
    IndexError
  | ZeroDivisionError
  | AttributeError
  | RuntimeError string
  | HTTPException nat string

text \<open>
  Strings are lists of characters with the code points 0 to 255 (Latin-1).
  \<^verbatim>\<open>str.isspace\<close> on them: space, the controls \<^verbatim>\<open>\t \n \v \f \r\<close>, the separators
  \<^verbatim>\<open>\x1c\<close> to \<^verbatim>\<open>\x1f\<close>, the next-line control \<^verbatim>\<open>\x85\<close> and the no-break space \<^verbatim>\<open>\xa0\<close>.
\<close>

definition isspace :: "char \<Rightarrow> bool" where
  "isspace c =
     (c \<in> {CHR '' '', CHR 0x09, CHR 0x0A, CHR 0x0B, CHR 0x0C, CHR 0x0D,
            CHR 0x1C, CHR 0x1D, CHR 0x1E, CHR 0x1F, CHR 0x85, CHR 0xA0})"

text \<open>
  \<^verbatim>\<open>str.lower\<close>: the letters \<^verbatim>\<open>A\<close> to \<^verbatim>\<open>Z\<close> move to \<^verbatim>\<open>a\<close> to \<^verbatim>\<open>z\<close>, and the Latin-1
  capitals \<^verbatim>\<open>\xc0\<close> to \<^verbatim>\<open>\xde\<close> (the multiplication sign \<^verbatim>\<open>\xd7\<close> apart) move to
  \<^verbatim>\<open>\xe0\<close> to \<^verbatim>\<open>\xfe\<close>.
\<close>

definition upper_chars :: string where
  "upper_chars =
     ''ABCDEFGHIJKLMNOPQRSTUVWXYZ'' @
     [CHR 0xC0, CHR 0xC1, CHR 0xC2, CHR 0xC3, CHR 0xC4, CHR 0xC5, CHR 0xC6, CHR 0xC7,
      CHR 0xC8, CHR 0xC9, CHR 0xCA, CHR 0xCB, CHR 0xCC, CHR 0xCD, CHR 0xCE, CHR 0xCF,
      CHR 0xD0, CHR 0xD1, CHR 0xD2, CHR 0xD3, CHR 0xD4, CHR 0xD5, CHR 0xD6,
      CHR 0xD8, CHR 0xD9, CHR 0xDA, CHR 0xDB, CHR 0xDC, CHR 0xDD, CHR 0xDE]"

definition lower_chars :: string where
  "lower_chars =
     ''abcdefghijklmnopqrstuvwxyz'' @
     [CHR 0xE0, CHR 0xE1, CHR 0xE2, CHR 0xE3, CHR 0xE4, CHR 0xE5, CHR 0xE6, CHR 0xE7,
      CHR 0xE8, CHR 0xE9, CHR 0xEA, CHR 0xEB, CHR 0xEC, CHR 0xED, CHR 0xEE, CHR 0xEF,
      CHR 0xF0, CHR 0xF1, CHR 0xF2, CHR 0xF3, CHR 0xF4, CHR 0xF5, CHR 0xF6,
      CHR 0xF8, CHR 0xF9, CHR 0xFA, CHR 0xFB, CHR 0xFC, CHR 0xFD, CHR 0xFE]"

definition lower_char :: "char \<Rightarrow> char" where
  "lower_char c =
     (case map_of (zip upper_chars lower_chars) c of
        Some l \<Rightarrow> l
      | None \<Rightarrow> c)"

definition py_lower :: "string \<Rightarrow> string" where
  "py_lower s = map lower_char s"

text \<open>\<^verbatim>\<open>str.strip()\<close>: whitespace is removed at both ends.\<close>

definition py_strip :: "string \<Rightarrow> string" where
  "py_strip s = rev (dropWhile isspace (rev (dropWhile isspace s)))"

text \<open>\<^verbatim>\<open>sub in s\<close>: \<open>sub\<close> occurs in \<open>s\<close> as a contiguous substring.\<close>

fun py_in :: "string \<Rightarrow> string \<Rightarrow> bool" where
  "py_in sub [] = (sub = [])"
| "py_in sub (c # s) = (take (length sub) (c # s) = sub \<or> py_in sub s)"

text \<open>
  \<^verbatim>\<open>str.split()\<close> with no separator: the maximal runs of characters that are not
  whitespace, in order; \<open>cur\<close> is the run being read.
\<close>

fun split_ws :: "string \<Rightarrow> string \<Rightarrow> string list" where
  "split_ws cur [] = (if cur = [] then [] else [cur])"
| "split_ws cur (c # s) =
     (if isspace c then (if cur = [] then split_ws [] s else cur # split_ws [] s)
      else split_ws (cur @ [c]) s)"

definition py_split :: "string \<Rightarrow> string list" where
  "py_split s = split_ws [] s"

text \<open>
  \<^verbatim>\<open>s.count(sub)\<close>: the occurrences of \<open>sub\<close> in \<open>s\<close> that do not overlap, counted from
  the left; for the empty \<open>sub\<close> Python counts the gaps between characters.
\<close>

function py_count :: "string \<Rightarrow> string \<Rightarrow> nat" where
  "py_count s sub =
     (if sub = [] then length s + 1
      else if length s < length sub then 0
      else if take (length sub) s = sub then 1 + py_count (drop (length sub) s) sub
      else py_count (tl s) sub)"
  by pat_completeness auto
termination
proof (relation "measure (\<lambda>(s, sub). length s)")
  show "wf (measure (\<lambda>(s, sub). length s))" by simp
next
  fix s sub :: string
  assume "sub \<noteq> []" "\<not> length s < length sub"
  then have "0 < length sub" "length sub \<le> length s" by simp_all
  then have "length s - length sub < length s" by linarith
  then show "((drop (length sub) s, sub), (s, sub)) \<in> measure (\<lambda>(s, sub). length s)"
    by simp
next
  fix s sub :: string
  assume "sub \<noteq> []" "\<not> length s < length sub"
  then have "0 < length s" by (cases s) simp_all
  then have "length s - 1 < length s" by linarith
  then show "((tl s, sub), (s, sub)) \<in> measure (\<lambda>(s, sub). length s)"
    by simp
qed

declare py_count.simps [simp del]

section \<open>chunking.py\<close>

type_synonym chunk_span = "int \<times> int \<times> string"

text \<open>
  The \<^verbatim>\<open>while i < n\<close> loop of \<^verbatim>\<open>chunk_text\<close>. Not returning is the value \<open>None\<close>.
\<close>

partial_function (option) chunk_loop ::
  "string \<Rightarrow> int \<Rightarrow> int \<Rightarrow> int \<Rightarrow> chunk_span list \<Rightarrow> chunk_span list option" where
  "chunk_loop text approx_chars stride i chunks =
     (if i < int (length text) then
        (if min (int (length text)) (i + approx_chars) = int (length text)
         then Some (chunks @ [(i, min (int (length text)) (i + approx_chars),
                               py_slice text i (min (int (length text)) (i + approx_chars)))])
         else chunk_loop text approx_chars stride
                (i + (if stride > 0 then stride else approx_chars))
                (chunks @ [(i, min (int (length text)) (i + approx_chars),
                            py_slice text i (min (int (length text)) (i + approx_chars)))]))
      else Some chunks)"

declare chunk_loop.simps [code]

definition chunk_text :: "string \<Rightarrow> int \<Rightarrow> int \<Rightarrow> chunk_span list option" where
  "chunk_text text target_tokens overlap =
     (if text = [] then Some []
      else
        (let approx_chars = max 200 (target_tokens * 4);
             stride = max 0 (approx_chars - overlap * 4)
         in chunk_loop text approx_chars stride 0 []))"

text \<open>
  Vocabulary for the results of \<^verbatim>\<open>chunk_text\<close>: the fields of a span, the increment
  \<^verbatim>\<open>stride if stride > 0 else approx_chars\<close> of the loop, and the tuple the loop appends at
  offset \<open>i\<close>.
\<close>

definition c_start :: "chunk_span \<Rightarrow> int" where "c_start c = fst c"
definition c_end :: "chunk_span \<Rightarrow> int" where "c_end c = fst (snd c)"
definition c_text :: "chunk_span \<Rightarrow> string" where "c_text c = snd (snd c)"

definition advance :: "int \<Rightarrow> int \<Rightarrow> int" where
  "advance approx_chars stride = (if stride > 0 then stride else approx_chars)"

definition window_at :: "string \<Rightarrow> int \<Rightarrow> int \<Rightarrow> chunk_span" where
  "window_at text approx_chars i =
     (i, min (int (length text)) (i + approx_chars),
      py_slice text i (min (int (length text)) (i + approx_chars)))"

text \<open>
  The spec's words for the chunker: the effective window is \<open>max(200, target_tokens*4)\<close>
  characters, the effective stride is the window minus \<open>overlap_tokens*4\<close>, and the window
  itself when that difference is not positive.
\<close>

definition window :: "int \<Rightarrow> int" where
  "window target_tokens = max 200 (target_tokens * 4)"

definition step :: "int \<Rightarrow> int \<Rightarrow> int" where
  "step target_tokens overlap =
     (if 0 < window target_tokens - overlap * 4
      then window target_tokens - overlap * 4 else window target_tokens)"

section \<open>graphs/index\_graph.py\<close>

text \<open>
  A file dictionary as \<^verbatim>\<open>discover\<close> builds it, a row of the \<^verbatim>\<open>files\<close> table of db.py
  (its primary key \<^verbatim>\<open>path\<close> is the key of the map), and a chunk dictionary as
  \<^verbatim>\<open>parse_chunk\<close> builds it.
\<close>

record file_rec =
  f_path :: string
  f_bytes :: int
  f_mtime_ns :: int
  f_sha256 :: string
  f_mime :: string
  f_ext :: string

record file_row =
  r_bytes :: int
  r_mtime_ns :: int
  r_sha256 :: string
  r_mime :: string
  r_last_indexed_at :: string

type_synonym files_table = "string \<rightharpoonup> file_row"

record chunk_rec =
  ch_file :: file_rec
  ch_idx :: nat
  ch_char_start :: int
  ch_char_end :: int
  ch_text :: string

text \<open>
  \<^verbatim>\<open>IndexState\<close>. The source reads every key with \<^verbatim>\<open>s.get(key, default)\<close>: an absent
  list is the empty list, an absent \<^verbatim>\<open>force_reembed\<close> is false, an absent \<^verbatim>\<open>mode\<close> or
  \<^verbatim>\<open>model\<close> is \<open>None\<close>.
\<close>

record index_state =
  mode :: "string option"
  model :: "string option"
  force_reembed :: bool
  files :: "file_rec list"
  changed :: "file_rec list"
  chunks :: "chunk_rec list"
  embeddings :: "real list list"
  stats :: "string \<rightharpoonup> nat"
  errors :: "string list"

subsection \<open>diff\<close>

text \<open>The \<^verbatim>\<open>for f in s.get("files", [])\<close> loop of \<^verbatim>\<open>diff\<close>, appending to \<^verbatim>\<open>changed\<close>.\<close>

fun diff_loop ::
  "string \<Rightarrow> (string \<rightharpoonup> string) \<Rightarrow> file_rec list \<Rightarrow> file_rec list \<Rightarrow> file_rec list" where
  "diff_loop md known [] acc = acc"
| "diff_loop md known (f # fs) acc =
     diff_loop md known fs
       (if md = ''full'' \<or> known (f_path f) = None \<or> known (f_path f) \<noteq> Some (f_sha256 f)
        then acc @ [f] else acc)"

text \<open>
  \<^verbatim>\<open>known\<close> is the dictionary \<^verbatim>\<open>{path: sha256}\<close> read from the \<^verbatim>\<open>files\<close> table.
\<close>

definition known_of :: "files_table \<Rightarrow> (string \<rightharpoonup> string)" where
  "known_of db = (\<lambda>p. map_option r_sha256 (db p))"

definition diff :: "files_table \<Rightarrow> index_state \<Rightarrow> index_state" where
  "diff db s =
     (if force_reembed s then
        s\<lparr>changed := files s, stats := (stats s)(''changed'' \<mapsto> length (files s))\<rparr>
      else
        (let md = (case mode s of None \<Rightarrow> ''incremental'' | Some m \<Rightarrow> m);
             acc = diff_loop md (known_of db) (files s) []
         in s\<lparr>changed := acc, stats := (stats s)(''changed'' \<mapsto> length acc)\<rparr>))"

subsection \<open>parse\_chunk\<close>

text \<open>
  The first loop of \<^verbatim>\<open>parse_chunk\<close>. The reader \<^verbatim>\<open>read_text_str\<close> is a parameter from
  path to text, \<open>None\<close> when it raises; the \<^verbatim>\<open>except\<close> branch turns that into the empty
  text.
\<close>

definition read_or_empty :: "(string \<Rightarrow> string option) \<Rightarrow> string \<Rightarrow> string" where
  "read_or_empty rd p = (case rd p of None \<Rightarrow> [] | Some d \<Rightarrow> d)"

fun parse_loop ::
  "(string \<Rightarrow> string option) \<Rightarrow> file_rec list \<Rightarrow> (file_rec \<times> string) list \<Rightarrow> string list
   \<Rightarrow> (file_rec \<times> string) list \<times> string list" where
  "parse_loop rd [] texts errs = (texts, errs)"
| "parse_loop rd (f # fs) texts errs =
     (let data = read_or_empty rd (f_path f)
      in if data = [] then parse_loop rd fs texts (errs @ [''parse-empty:'' @ f_path f])
         else parse_loop rd fs (texts @ [(f, data)]) errs)"

text \<open>The inner loop over \<^verbatim>\<open>enumerate(spans)\<close>.\<close>

definition file_chunks :: "file_rec \<Rightarrow> chunk_span list \<Rightarrow> chunk_rec list" where
  "file_chunks f spans =
     map (\<lambda>(idx, (cstart, cend, chunk)).
            \<lparr>ch_file = f, ch_idx = idx, ch_char_start = cstart, ch_char_end = cend,
             ch_text = chunk\<rparr>)
         (enumerate 0 spans)"

text \<open>The second loop, \<^verbatim>\<open>for t in texts\<close>, with the fixed parameters 800 and 80.\<close>

fun chunk_files :: "(file_rec \<times> string) list \<Rightarrow> chunk_rec list \<Rightarrow> chunk_rec list option" where
  "chunk_files [] acc = Some acc"
| "chunk_files ((f, t) # ts) acc =
     (case chunk_text t 800 80 of
        None \<Rightarrow> None
      | Some spans \<Rightarrow> chunk_files ts (acc @ file_chunks f spans))"

definition parse_chunk :: "(string \<Rightarrow> string option) \<Rightarrow> index_state \<Rightarrow> index_state option" where
  "parse_chunk rd s =
     (case parse_loop rd (changed s) [] (errors s) of
        (texts, errs) \<Rightarrow>
          (case chunk_files texts [] of
             None \<Rightarrow> None
           | Some cs \<Rightarrow>
               Some (s\<lparr>chunks := cs, errors := errs,
                       stats := (stats s)(''chunks'' \<mapsto> length cs)\<rparr>)))"

subsection \<open>upsert\_vectors\<close>

text \<open>\<^verbatim>\<open>str\<close> of a chunk index, which \<^verbatim>\<open>enumerate\<close> makes a natural number.\<close>

definition digit_char :: "nat \<Rightarrow> char" where
  "digit_char d = ''0123456789'' ! d"

fun str_nat :: "nat \<Rightarrow> string" where
  "str_nat n = (if n < 10 then [digit_char n] else str_nat (n div 10) @ [digit_char (n mod 10)])"

declare str_nat.simps [simp del]

record vector_meta =
  m_path :: string
  m_sha256 :: string
  m_chunk_idx :: nat
  m_mime :: string
  m_ext :: string
  m_mtime_ns :: int
  m_embedding_model :: string

text \<open>
  The loop of \<^verbatim>\<open>upsert_vectors\<close> that builds the parallel arrays \<^verbatim>\<open>ids\<close>, \<^verbatim>\<open>docs\<close> and
  \<^verbatim>\<open>metas\<close>; \<open>dflt\<close> is \<^verbatim>\<open>SETTINGS.embedding_model\<close>.
\<close>

fun build_batch ::
  "string \<Rightarrow> string option \<Rightarrow> chunk_rec list \<Rightarrow> string list \<times> string list \<times> vector_meta list
   \<Rightarrow> string list \<times> string list \<times> vector_meta list" where
  "build_batch dflt mdl [] (ids, docs, metas) = (ids, docs, metas)"
| "build_batch dflt mdl (c # cs) (ids, docs, metas) =
     (let f = ch_file c;
          vid = f_sha256 f @ '':'' @ str_nat (ch_idx c)
      in build_batch dflt mdl cs
           (ids @ [vid], docs @ [ch_text c],
            metas @ [\<lparr>m_path = f_path f, m_sha256 = f_sha256 f, m_chunk_idx = ch_idx c,
                      m_mime = f_mime f, m_ext = f_ext f, m_mtime_ns = f_mtime_ns f,
                      m_embedding_model =
                        (case mdl of None \<Rightarrow> dflt | Some m \<Rightarrow> if m = [] then dflt else m)\<rparr>]))"

text \<open>
  The vector store is the collection of tests/conftest.py: a dictionary from id to
  document, metadata and embedding, whose \<^verbatim>\<open>upsert\<close> assigns \<^verbatim>\<open>store[vid]\<close> for each id
  in turn, raises \<^verbatim>\<open>IndexError\<close> when a parallel array is too short, and takes zero vectors
  when no embeddings are given.
\<close>

type_synonym collection = "string \<rightharpoonup> (string \<times> vector_meta \<times> real list)"

fun col_upsert_loop ::
  "collection \<Rightarrow> nat \<Rightarrow> string list \<Rightarrow> string list \<Rightarrow> vector_meta list \<Rightarrow> real list list
   \<Rightarrow> py_error + collection" where
  "col_upsert_loop st i [] docs metas embs = Inr st"
| "col_upsert_loop st i (vid # ids) docs metas embs =
     (if i < length docs \<and> i < length metas \<and> i < length embs
      then col_upsert_loop (st(vid \<mapsto> (docs ! i, metas ! i, embs ! i))) (Suc i) ids docs metas embs
      else Inl IndexError)"

definition col_upsert ::
  "collection \<Rightarrow> string list \<Rightarrow> string list \<Rightarrow> vector_meta list \<Rightarrow> real list list
   \<Rightarrow> py_error + collection" where
  "col_upsert st ids docs metas embs =
     col_upsert_loop st 0 ids docs metas
       (if embs = [] then map (\<lambda>_. [0, 0, 0, 0]) docs else embs)"

definition upsert_vectors ::
  "string \<Rightarrow> collection \<Rightarrow> index_state \<Rightarrow> py_error + (collection \<times> index_state)" where
  "upsert_vectors dflt col s =
     (case build_batch dflt (model s) (chunks s) ([], [], []) of
        (ids, docs, metas) \<Rightarrow>
          (case (if ids \<noteq> [] then col_upsert col ids docs metas (embeddings s) else Inr col) of
             Inl e \<Rightarrow> Inl e
           | Inr col' \<Rightarrow> Inr (col', s\<lparr>stats := (stats s)(''upserted'' \<mapsto> length ids)\<rparr>)))"

text \<open>The array \<^verbatim>\<open>ids\<close> that \<^verbatim>\<open>upsert_vectors\<close> hands to the store.\<close>

definition vector_ids :: "string \<Rightarrow> index_state \<Rightarrow> string list" where
  "vector_ids dflt s = fst (build_batch dflt (model s) (chunks s) ([], [], []))"

text \<open>
  The ids as a function of content alone: for each file, given as its fingerprint and its
  extracted text, one id per span of the chunker, numbered from 0; none for an empty text.
\<close>

definition ids_of_content :: "(string \<times> string) list \<Rightarrow> string list" where
  "ids_of_content ps =
     concat (map (\<lambda>(h, t).
        if t = [] then []
        else (case chunk_text t 800 80 of
                None \<Rightarrow> []
              | Some spans \<Rightarrow> map (\<lambda>k. h @ '':'' @ str_nat k) [0 ..< length spans])) ps)"

subsection \<open>commit\_run\<close>

text \<open>
  One \<^verbatim>\<open>INSERT ... ON CONFLICT(path) DO UPDATE\<close> per changed file: the row under the
  file's path is created or replaced, with \<^verbatim>\<open>now\<close> as \<^verbatim>\<open>last_indexed_at\<close>.
\<close>

definition row_of :: "string \<Rightarrow> file_rec \<Rightarrow> file_row" where
  "row_of now f =
     \<lparr>r_bytes = f_bytes f, r_mtime_ns = f_mtime_ns f, r_sha256 = f_sha256 f,
      r_mime = f_mime f, r_last_indexed_at = now\<rparr>"

fun commit_loop :: "string \<Rightarrow> file_rec list \<Rightarrow> files_table \<Rightarrow> files_table" where
  "commit_loop now [] db = db"
| "commit_loop now (f # fs) db = commit_loop now fs (db(f_path f \<mapsto> row_of now f))"

definition commit_run :: "string \<Rightarrow> files_table \<Rightarrow> index_state \<Rightarrow> files_table \<times> index_state" where
  "commit_run now db s = (commit_loop now (changed s) db, s)"


section \<open>main.py: relevance scoring and normalisation\<close>

text \<open>
  \<^verbatim>\<open>difflib.SequenceMatcher(None, a, b).ratio()\<close> is library code: it is \<open>2.0 * M / T\<close>
  where \<open>T\<close> is the sum of the two lengths and \<open>M\<close> the number of matched characters,
  and \<open>1.0\<close> when \<open>T\<close> is 0. The count of matched characters is the parameter \<open>sm\<close>.
\<close>

definition sm_ratio :: "(string \<Rightarrow> string \<Rightarrow> nat) \<Rightarrow> string \<Rightarrow> string \<Rightarrow> real" where
  "sm_ratio sm a b =
     (if length a + length b \<noteq> 0
      then 2 * real (sm a b) / real (length a + length b) else 1)"

text \<open>
  \<^verbatim>\<open>calculate_relevance_score\<close>. A Python set of terms is a list without duplicates: the
  code only takes its size, intersects it and sums over it. The division by
  \<^verbatim>\<open>len(query_terms) * 3\<close> raises when the set is empty.
\<close>

definition calculate_relevance_score ::
  "(string \<Rightarrow> string \<Rightarrow> nat) \<Rightarrow> string \<Rightarrow> string \<Rightarrow> string \<Rightarrow> py_error + real" where
  "calculate_relevance_score sm query text title =
     (let query_lower = py_strip (py_lower query);
          text_lower = py_strip (py_lower text);
          title_lower = py_strip (py_lower title);
          combined = title_lower @ '' '' @ text_lower
      in if py_in query_lower title_lower then Inr 1
         else if py_in query_lower text_lower then Inr 0.95
         else
           (let query_terms = remdups (py_split query_lower);
                combined_terms = remdups (py_split combined);
                term_coverage =
                  (if length query_terms > 0
                   then real (length (filter (\<lambda>t. t \<in> set combined_terms) query_terms))
                          / real (length query_terms)
                   else 0);
                term_freq = sum_list (map (\<lambda>term. py_count combined term) query_terms)
            in if length query_terms * 3 = 0 then Inl ZeroDivisionError
               else
                 (let term_freq_score = min (real term_freq / real (length query_terms * 3)) 1;
                      sequence_sim = sm_ratio sm query_lower (py_prefix combined 1000);
                      combined_score =
                        term_coverage * 0.5 + term_freq_score * 0.3 + sequence_sim * 0.2
                  in Inr (min combined_score 1))))"

text \<open>
  A value read from a dictionary with \<^verbatim>\<open>d.get(key, default)\<close>: the key is absent (the
  default is read), or it is present with the value \<^verbatim>\<open>None\<close> (\<^verbatim>\<open>None\<close> is read, not the
  default), or it is present with a value.
\<close>

datatype 'a entry = Absent | PyNone | Val 'a

text \<open>
  A hit dictionary of the query pipeline, with the keys \<^verbatim>\<open>normalize_local_results\<close> reads.
  \<open>h_meta\<close> is the \<^verbatim>\<open>path\<close> entry of the dictionary under \<^verbatim>\<open>meta\<close>.
\<close>

record hit =
  h_text :: "string entry"
  h_content :: "string entry"
  h_path :: "string entry"
  h_meta :: "string entry entry"
  h_score :: "real entry"

text \<open>
  \<^verbatim>\<open>UnifiedResult\<close>. The metadata bag is left out: no function modelled here reads it.
\<close>

record unified_result =
  source :: string
  title :: string
  content :: string
  url :: "string option"
  score :: real

text \<open>
  \<^verbatim>\<open>q or query or ""\<close> for two optional strings: the first that is neither \<^verbatim>\<open>None\<close> nor
  empty, else the empty string.
\<close>

definition str_or :: "string option \<Rightarrow> string option \<Rightarrow> string" where
  "str_or a b =
     (case a of Some x \<Rightarrow> (if x \<noteq> [] then x else (case b of Some y \<Rightarrow> y | None \<Rightarrow> []))
              | None \<Rightarrow> (case b of Some y \<Rightarrow> y | None \<Rightarrow> []))"

text \<open>\<^verbatim>\<open>d.get(key, "")\<close>, with \<open>None\<close> for Python's \<^verbatim>\<open>None\<close>.\<close>

definition get_or_empty :: "string entry \<Rightarrow> string option" where
  "get_or_empty e = (case e of Absent \<Rightarrow> Some [] | PyNone \<Rightarrow> None | Val s \<Rightarrow> Some s)"

text \<open>
  \<^verbatim>\<open>content = hit.get("text", "") or hit.get("content", "")\<close>: the text when it is a
  string that is not empty, else whatever is read under \<^verbatim>\<open>content\<close>, which may be
  \<^verbatim>\<open>None\<close>.
\<close>

definition hit_content :: "hit \<Rightarrow> string option" where
  "hit_content h =
     (case h_text h of
        Val s \<Rightarrow> if s \<noteq> [] then Some s else get_or_empty (h_content h)
      | _ \<Rightarrow> get_or_empty (h_content h))"

text \<open>
  \<^verbatim>\<open>hit.get("meta", {}).get("path", "")\<close>: a \<^verbatim>\<open>meta\<close> that is \<^verbatim>\<open>None\<close> has no \<^verbatim>\<open>get\<close>.
\<close>

definition meta_path :: "hit \<Rightarrow> py_error + string option" where
  "meta_path h =
     (case h_meta h of
        Absent \<Rightarrow> Inr (Some [])
      | PyNone \<Rightarrow> Inl AttributeError
      | Val e \<Rightarrow> Inr (get_or_empty e))"

text \<open>\<^verbatim>\<open>path = hit.get("path", "") or hit.get("meta", {}).get("path", "")\<close>\<close>

definition hit_path :: "hit \<Rightarrow> py_error + string option" where
  "hit_path h =
     (case h_path h of
        Val s \<Rightarrow> if s \<noteq> [] then Inr (Some s) else meta_path h
      | _ \<Rightarrow> meta_path h)"

text \<open>\<^verbatim>\<open>path.split("/")[-1]\<close>\<close>

definition last_component :: "string \<Rightarrow> string" where
  "last_component p = rev (takeWhile (\<lambda>c. c \<noteq> CHR ''/'') (rev p))"

text \<open>
  \<^verbatim>\<open>file_name = path.split("/")[-1] if path else "Local Document"\<close> and
  \<^verbatim>\<open>url = f"file://{path}" if path else None\<close>: \<^verbatim>\<open>None\<close> and the empty string are false.
\<close>

definition file_name_of :: "string option \<Rightarrow> string" where
  "file_name_of path =
     (case path of
        Some p \<Rightarrow> if p \<noteq> [] then last_component p else ''Local Document''
      | None \<Rightarrow> ''Local Document'')"

definition file_url_of :: "string option \<Rightarrow> string option" where
  "file_url_of path =
     (case path of
        Some p \<Rightarrow> if p \<noteq> [] then Some (''file://'' @ p) else None
      | None \<Rightarrow> None)"

text \<open>
  \<^verbatim>\<open>original_score = hit.get("score", 0)\<close> and the test
  \<^verbatim>\<open>if original_score and original_score < 0.5\<close>: an absent score (read as \<open>0\<close>),
  \<^verbatim>\<open>None\<close> and \<open>0\<close> are all false.
\<close>

definition boosted :: "real entry \<Rightarrow> bool" where
  "boosted original_score =
     (case original_score of Absent \<Rightarrow> False | PyNone \<Rightarrow> False | Val d \<Rightarrow> d \<noteq> 0 \<and> d < 0.5)"

text \<open>
  The \<^verbatim>\<open>UnifiedResult\<close> built for a hit, given its content, its path and its relevance,
  boosted or not.
\<close>

definition local_result :: "string \<Rightarrow> string option \<Rightarrow> real \<Rightarrow> unified_result" where
  "local_result content_str path relevance =
     \<lparr>source = ''local'', title = file_name_of path, content = py_prefix content_str 500,
      url = file_url_of path, score = min relevance 1\<rparr>"

text \<open>
  The loop of \<^verbatim>\<open>normalize_local_results\<close>. The path is read after the content and may
  raise; a content that is \<^verbatim>\<open>None\<close> makes \<^verbatim>\<open>calculate_relevance_score\<close> raise
  \<^verbatim>\<open>AttributeError\<close> at \<^verbatim>\<open>text.lower()\<close>.
\<close>

fun normalize_local_loop ::
  "(string \<Rightarrow> string \<Rightarrow> nat) \<Rightarrow> string \<Rightarrow> hit list \<Rightarrow> unified_result list
   \<Rightarrow> py_error + unified_result list" where
  "normalize_local_loop sm query [] results = Inr results"
| "normalize_local_loop sm query (h # hits) results =
     (case hit_path h of
        Inl e \<Rightarrow> Inl e
      | Inr path \<Rightarrow>
          (case hit_content h of
             None \<Rightarrow> Inl AttributeError
           | Some content_str \<Rightarrow>
               (case calculate_relevance_score sm query content_str (file_name_of path) of
                  Inl e \<Rightarrow> Inl e
                | Inr relevance0 \<Rightarrow>
                    (let relevance =
                           (if boosted (h_score h) then relevance0 * 1.2 else relevance0)
                     in normalize_local_loop sm query hits
                          (results @ [local_result content_str path relevance])))))"

definition normalize_local_results ::
  "(string \<Rightarrow> string \<Rightarrow> nat) \<Rightarrow> hit list \<Rightarrow> string \<Rightarrow> py_error + unified_result list" where
  "normalize_local_results sm hits query = normalize_local_loop sm query hits []"

section \<open>main.py: merge\_and\_rank\_results\<close>

text \<open>
  \<^verbatim>\<open>merge_and_rank_results\<close> assigns to \<^verbatim>\<open>r.score\<close> of the objects it is given, so the
  objects live in a store: a reference is an address, the store maps every address to the
  object it holds, and a Python list of results is a list of references. The function
  returns the store it leaves together with the list it returns.
\<close>

type_synonym ref = nat
type_synonym store = "ref \<Rightarrow> unified_result"

text \<open>\<^verbatim>\<open>for r in results: r.score = min(r.score * 1.3, 1.0)\<close>\<close>

fun boost_loop :: "store \<Rightarrow> ref list \<Rightarrow> store" where
  "boost_loop h [] = h"
| "boost_loop h (r # rs) =
     boost_loop (h(r := (h r)\<lparr>score := min (score (h r) * 1.3) 1\<rparr>)) rs"

text \<open>The \<^verbatim>\<open>for i in range(max_len)\<close> loop of the interleaved strategy.\<close>

fun interleave_loop :: "ref list \<Rightarrow> ref list \<Rightarrow> nat list \<Rightarrow> ref list \<Rightarrow> ref list" where
  "interleave_loop local_results web_results [] merged = merged"
| "interleave_loop local_results web_results (i # idxs) merged =
     interleave_loop local_results web_results idxs
       ((if i < length local_results then merged @ [local_results ! i] else merged) @
        (if i < length web_results then [web_results ! i] else []))"

text \<open>
  The URL as the tests \<^verbatim>\<open>if result.url\<close> read it: \<^verbatim>\<open>None\<close> and the empty string are
  both false.
\<close>

definition url_key :: "unified_result \<Rightarrow> string option" where
  "url_key r = (case url r of None \<Rightarrow> None | Some u \<Rightarrow> if u \<noteq> [] then Some u else None)"

definition content_fp :: "unified_result \<Rightarrow> string" where
  "content_fp r = py_strip (py_lower (py_prefix (content r) 200))"

text \<open>
  The deduplication loop over the sorted results, with its two \<^verbatim>\<open>continue\<close> branches
  and its \<^verbatim>\<open>break\<close>.
\<close>

fun dedup_loop ::
  "store \<Rightarrow> int \<Rightarrow> ref list \<Rightarrow> ref list \<Rightarrow> string set \<Rightarrow> string set \<Rightarrow> ref list" where
  "dedup_loop h max_results [] unique_results seen_urls seen_fps = unique_results"
| "dedup_loop h max_results (r # rs) unique_results seen_urls seen_fps =
     (if (case url_key (h r) of None \<Rightarrow> False | Some u \<Rightarrow> u \<in> seen_urls)
      then dedup_loop h max_results rs unique_results seen_urls seen_fps
      else if content_fp (h r) \<in> seen_fps
      then dedup_loop h max_results rs unique_results seen_urls seen_fps
      else if max_results \<le> int (length (unique_results @ [r]))
      then unique_results @ [r]
      else dedup_loop h max_results rs (unique_results @ [r])
             (case url_key (h r) of None \<Rightarrow> seen_urls | Some u \<Rightarrow> insert u seen_urls)
             (if content_fp (h r) \<noteq> [] then insert (content_fp (h r)) seen_fps else seen_fps))"

text \<open>
  \<^verbatim>\<open>sorted(xs, key=lambda x: x.score, reverse=True)\<close>: a stable sort by descending score.
\<close>

definition sort_by_score :: "store \<Rightarrow> ref list \<Rightarrow> ref list" where
  "sort_by_score h xs = sort_key (\<lambda>r. - score (h r)) xs"

text \<open>The part of the function after the strategy branches.\<close>

definition rank_unique :: "store \<Rightarrow> ref list \<Rightarrow> ref list \<Rightarrow> int \<Rightarrow> ref list" where
  "rank_unique h local_results web_results max_results =
     py_prefix
       (sort_by_score h
          (dedup_loop h max_results (sort_by_score h (local_results @ web_results)) [] {} {}))
       max_results"

definition merge_and_rank_results ::
  "store \<Rightarrow> ref list \<Rightarrow> ref list \<Rightarrow> string \<Rightarrow> int \<Rightarrow> store \<times> ref list" where
  "merge_and_rank_results h local_results web_results strategy max_results =
     (if strategy = ''local_first'' then
        (boost_loop h local_results,
         rank_unique (boost_loop h local_results) local_results web_results max_results)
      else if strategy = ''web_first'' then
        (boost_loop h web_results,
         rank_unique (boost_loop h web_results) local_results web_results max_results)
      else if strategy = ''interleaved'' then
        (h, py_prefix
              (interleave_loop local_results web_results
                 [0 ..< max (length local_results) (length web_results)] [])
              max_results)
      else (h, rank_unique h local_results web_results max_results))"

text \<open>The URLs of a list of results that the deduplication takes into account.\<close>

definition url_keys :: "store \<Rightarrow> ref list \<Rightarrow> string list" where
  "url_keys h out = List.map_filter (\<lambda>r. url_key (h r)) out"

text \<open>The re-weighting \<open>min(score * 1.3, 1.0)\<close> of a score.\<close>

definition reweight :: "real \<Rightarrow> real" where
  "reweight s = min (s * 1.3) 1"

section \<open>main.py: web\_search\<close>

text \<open>A result dictionary of a search provider.\<close>

record web_item =
  w_title :: "string option"
  w_url :: "string option"
  w_snippet :: "string option"
  w_source :: string

text \<open>The values of the response dictionary of \<^verbatim>\<open>web_search\<close>.\<close>

datatype resp_value = VNone | VStr string | VResults "web_item list"

text \<open>\<^verbatim>\<open>re.split(r"[|,]", engine)\<close>: the pieces between separators, empty ones kept.\<close>

fun split_engines :: "string \<Rightarrow> string \<Rightarrow> string list" where
  "split_engines cur [] = [cur]"
| "split_engines cur (c # s) =
     (if c = CHR ''|'' \<or> c = CHR '','' then cur # split_engines [] s
      else split_engines (cur @ [c]) s)"

text \<open>
  The loop over the engines. The two providers are parameters that return their results
  or raise; a provider that raises is skipped (\<^verbatim>\<open>continue\<close>), anything else ends the loop
  (\<^verbatim>\<open>break\<close>), also a name that is neither \<^verbatim>\<open>exa\<close> nor \<^verbatim>\<open>serper\<close>.
\<close>

fun engine_loop ::
  "(string \<Rightarrow> int \<Rightarrow> bool \<Rightarrow> py_error + web_item list) \<Rightarrow>
   (string \<Rightarrow> int \<Rightarrow> py_error + web_item list) \<Rightarrow>
   string \<Rightarrow> int \<Rightarrow> bool \<Rightarrow> string list \<Rightarrow> web_item list \<Rightarrow> web_item list" where
  "engine_loop exa serper qtxt top_n data [] results = results"
| "engine_loop exa serper qtxt top_n data (eng # engines) results =
     (if eng = ''exa'' then
        (case exa qtxt top_n data of
           Inr rs \<Rightarrow> rs
         | Inl e \<Rightarrow> engine_loop exa serper qtxt top_n data engines results)
      else if eng = ''serper'' then
        (case serper qtxt top_n of
           Inr rs \<Rightarrow> rs
         | Inl e \<Rightarrow> engine_loop exa serper qtxt top_n data engines results)
      else results)"

text \<open>
  \<^verbatim>\<open>web_search\<close>. The response is the dictionary the function returns, as the list of its
  keys and values. \<^verbatim>\<open>ensure_user\<close> writes to the audit tables and is left out.
\<close>

definition web_search ::
  "(string \<Rightarrow> int \<Rightarrow> bool \<Rightarrow> py_error + web_item list) \<Rightarrow>
   (string \<Rightarrow> int \<Rightarrow> py_error + web_item list) \<Rightarrow>
   string \<Rightarrow> string option \<Rightarrow> string option \<Rightarrow> bool \<Rightarrow> int \<Rightarrow> string
   \<Rightarrow> py_error + (string \<times> resp_value) list" where
  "web_search exa serper engine q query data top_n user_id =
     (let qtxt = py_strip (str_or q query) in
      if qtxt = [] then Inl (HTTPException 400 ''Missing query'')
      else
        (let engines = map py_strip (filter (\<lambda>e. py_strip e \<noteq> []) (split_engines [] engine));
             results = engine_loop exa serper qtxt top_n data engines []
         in Inr [(''engine'', if results \<noteq> [] then VStr (hd engines) else VNone),
                 (''q'', VStr qtxt),
                 (''results'', VResults results)]))"


section \<open>Example data\<close>

definition ex_a :: file_rec where
  "ex_a = \<lparr>f_path = ''/docs/a.txt'', f_bytes = 11, f_mtime_ns = 1, f_sha256 = ''h1'',
           f_mime = ''text/plain'', f_ext = ''.txt''\<rparr>"

definition ex_b :: file_rec where
  "ex_b = \<lparr>f_path = ''/docs/b.md'', f_bytes = 0, f_mtime_ns = 2, f_sha256 = ''h2'',
           f_mime = ''text/markdown'', f_ext = ''.md''\<rparr>"

definition ex_c :: file_rec where
  "ex_c = \<lparr>f_path = ''/docs/c.json'', f_bytes = 12, f_mtime_ns = 3, f_sha256 = ''h3'',
           f_mime = ''application/json'', f_ext = ''.json''\<rparr>"

text \<open>A copy of the third file: other path and time, same bytes.\<close>

definition ex_c_copy :: file_rec where
  "ex_c_copy = ex_c\<lparr>f_path := ''/other/c.json'', f_mtime_ns := 99\<rparr>"

text \<open>
  A fingerprint table that knows the first file as it is and the third file under an older
  fingerprint.
\<close>

definition ex_db :: files_table where
  "ex_db = [''/docs/a.txt'' \<mapsto> row_of ''t0'' ex_a,
            ''/docs/c.json'' \<mapsto> (row_of ''t0'' ex_c)\<lparr>r_sha256 := ''h0''\<rparr>]"

definition ex_state :: index_state where
  "ex_state = \<lparr>mode = Some ''incremental'', model = None, force_reembed = False,
                files = [ex_a, ex_b, ex_c], changed = [], chunks = [], embeddings = [],
                stats = Map.empty, errors = []\<rparr>"

text \<open>A reader for which the second file extracts to the empty text.\<close>

definition ex_rd :: "string \<Rightarrow> string option" where
  "ex_rd p = (if p = ''/docs/b.md'' then Some [] else Some ''echo foxtrot'')"

text \<open>A matcher that reports no matched character.\<close>

definition ex_sm :: "string \<Rightarrow> string \<Rightarrow> nat" where
  "ex_sm a b = 0"

text \<open>
  A hit as the query pipeline builds it for a chunk whose metadata has no path: the text
  \<^verbatim>\<open>x\<close>, the path \<^verbatim>\<open>None\<close>, an empty \<^verbatim>\<open>meta\<close> dictionary and the given distance.
\<close>

definition ex_hit :: "real entry \<Rightarrow> hit" where
  "ex_hit d = \<lparr>h_text = Val ''x'', h_content = Absent, h_path = PyNone, h_meta = Val Absent,
               h_score = d\<rparr>"

text \<open>
  The providers of \<^verbatim>\<open>test_web_search_fallback_to_serper\<close>: exa raises, serper returns
  one result.
\<close>

definition fail_exa :: "string \<Rightarrow> int \<Rightarrow> bool \<Rightarrow> py_error + web_item list" where
  "fail_exa q top_n include_text = Inl (RuntimeError ''exa down'')"

definition ok_serper :: "string \<Rightarrow> int \<Rightarrow> py_error + web_item list" where
  "ok_serper q top_n =
     Inr [\<lparr>w_title = Some ''S'', w_url = Some ''https://s'', w_snippet = Some ''serper'',
           w_source = ''serper''\<rparr>]"

text \<open>Results with a given URL, content and score, and a store that holds three of them.\<close>

definition ex_result :: "string option \<Rightarrow> string \<Rightarrow> real \<Rightarrow> unified_result" where
  "ex_result u c s = \<lparr>source = ''web'', title = ''t'', content = c, url = u, score = s\<rparr>"

definition ex_store :: store where
  "ex_store =
     (\<lambda>_. ex_result None ''other'' 0)
       (0 := ex_result (Some ''https://a'') ''alpha'' 0.5,
        1 := ex_result (Some ''https://a'') ''beta'' 0.4,
        2 := ex_result (Some '''') ''gamma'' 0.3,
        3 := ex_result (Some '''') ''delta'' 0.2)"

section \<open>Properties of the chunker\<close>

lemma chunk_loop_unfold:
  "chunk_loop text a s i acc =
     (if i < int (length text) then
        (if min (int (length text)) (i + a) = int (length text)
         then Some (acc @ [window_at text a i])
         else chunk_loop text a s (i + advance a s) (acc @ [window_at text a i]))
      else Some acc)"
  by (subst chunk_loop.simps) (simp add: window_at_def advance_def)

lemma chunk_loop_shape:
  assumes "0 < a"
  shows "\<exists>rest. chunk_loop text a s i acc = Some (acc @ rest) \<and>
           (int (length text) \<le> i \<longrightarrow> rest = []) \<and>
           (i < int (length text) \<longrightarrow> rest \<noteq> []) \<and>
           (\<forall>k<length rest. rest ! k = window_at text a (i + int k * advance a s)) \<and>
           (\<forall>k<length rest. fst (snd (rest ! k)) = int (length text) \<longrightarrow> Suc k = length rest) \<and>
           (advance a s \<le> a \<longrightarrow> i < int (length text) \<longrightarrow> fst (snd (last rest)) = int (length text)) \<and>
           (\<forall>k<length rest. fst (rest ! k) < int (length text))"
proof (induction "nat (int (length text) - i)" arbitrary: i acc rule: less_induct)
  case less
  let ?n = "int (length text)"
  have adv: "0 < advance a s" using assms by (simp add: advance_def)
  show ?case
  proof (cases "i < ?n")
    case False
    then show ?thesis by (subst chunk_loop_unfold) simp
  next
    case inside: True
    show ?thesis
    proof (cases "min ?n (i + a) = ?n")
      case True
      then have "chunk_loop text a s i acc = Some (acc @ [window_at text a i])"
        using inside by (subst chunk_loop_unfold) simp
      then show ?thesis using inside True by (simp add: window_at_def)
    next
      case False
      have lt: "nat (?n - (i + advance a s)) < nat (?n - i)" using adv inside by simp
      from less[OF lt, of "acc @ [window_at text a i]"]
      obtain rest where r: "chunk_loop text a s (i + advance a s) (acc @ [window_at text a i])
            = Some ((acc @ [window_at text a i]) @ rest)"
        and r1: "?n \<le> i + advance a s \<longrightarrow> rest = []"
        and r2: "i + advance a s < ?n \<longrightarrow> rest \<noteq> []"
        and r3: "\<forall>k<length rest. rest ! k = window_at text a (i + advance a s + int k * advance a s)"
        and r4: "\<forall>k<length rest. fst (snd (rest ! k)) = ?n \<longrightarrow> Suc k = length rest"
        and r5: "advance a s \<le> a \<longrightarrow> i + advance a s < ?n \<longrightarrow> fst (snd (last rest)) = ?n"
        and r6: "\<forall>k<length rest. fst (rest ! k) < ?n"
        by blast
      let ?rest = "window_at text a i # rest"
      have "chunk_loop text a s i acc =
              chunk_loop text a s (i + advance a s) (acc @ [window_at text a i])"
        by (subst chunk_loop_unfold) (simp only: inside False if_True if_False)
      then have e: "chunk_loop text a s i acc = Some (acc @ ?rest)"
        using r by simp
      have c3: "\<forall>k<length ?rest. ?rest ! k = window_at text a (i + int k * advance a s)"
      proof (intro allI impI)
        fix k assume "k < length ?rest"
        then show "?rest ! k = window_at text a (i + int k * advance a s)"
        proof (cases k)
          case 0
          then show ?thesis by simp
        next
          case (Suc m)
          then have "m < length rest" using \<open>k < length ?rest\<close> by simp
          then have "rest ! m = window_at text a (i + advance a s + int m * advance a s)"
            using r3 by blast
          moreover have "i + advance a s + int m * advance a s = i + int k * advance a s"
            using Suc by (simp add: algebra_simps)
          ultimately show ?thesis using Suc by simp
        qed
      qed
      have c4: "\<forall>k<length ?rest. fst (snd (?rest ! k)) = ?n \<longrightarrow> Suc k = length ?rest"
      proof (intro allI impI)
        fix k assume kl: "k < length ?rest" and kn: "fst (snd (?rest ! k)) = ?n"
        then show "Suc k = length ?rest"
        proof (cases k)
          case 0
          then show ?thesis using kn False by (simp add: window_at_def)
        next
          case (Suc m)
          then show ?thesis using r4 kl kn by simp
        qed
      qed
      have c5: "advance a s \<le> a \<longrightarrow> i < ?n \<longrightarrow> fst (snd (last ?rest)) = ?n"
      proof (intro impI)
        assume le: "advance a s \<le> a"
        have "i + a < ?n" using False by (simp add: min_def split: if_splits)
        then have "i + advance a s < ?n" using le by simp
        then show "fst (snd (last ?rest)) = ?n" using r2 r5 le by simp
      qed
      have c1: "?n \<le> i \<longrightarrow> ?rest = []" using inside by simp
      have c2: "i < ?n \<longrightarrow> ?rest \<noteq> []" by simp
      have c6: "\<forall>k<length ?rest. fst (?rest ! k) < ?n"
      proof (intro allI impI)
        fix k assume "k < length ?rest"
        then show "fst (?rest ! k) < ?n"
          using r6 inside by (cases k) (simp_all add: window_at_def)
      qed
      show ?thesis
        by (rule exI[of _ ?rest]) (intro conjI e c1 c2 c3 c4 c5 c6)
    qed
  qed
qed


lemma chunk_text_shape:
  "\<exists>cs. chunk_text doc tt ov = Some cs \<and>
           (doc = [] \<longrightarrow> cs = []) \<and>
           (doc \<noteq> [] \<longrightarrow> cs \<noteq> []) \<and>
           (\<forall>k<length cs. cs ! k = window_at doc (window tt) (int k * step tt ov)) \<and>
           (\<forall>k<length cs. c_end (cs ! k) = int (length doc) \<longrightarrow> Suc k = length cs) \<and>
           (step tt ov \<le> window tt \<longrightarrow> doc \<noteq> [] \<longrightarrow> c_end (last cs) = int (length doc)) \<and>
           (\<forall>k<length cs. c_start (cs ! k) < int (length doc))"
proof (cases "doc = []")
  case True
  then show ?thesis by (simp add: chunk_text_def)
next
  case False
  have wpos: "0 < window tt" by (simp add: window_def)
  have adv: "advance (window tt) (max 0 (window tt - ov * 4)) = step tt ov"
    by (simp add: advance_def step_def max_def)
  have ct: "chunk_text doc tt ov = chunk_loop doc (window tt) (max 0 (window tt - ov * 4)) 0 []"
    using False by (simp add: chunk_text_def window_def Let_def)
  have npos: "0 < int (length doc)" using False by simp
  from chunk_loop_shape[OF wpos, of doc "max 0 (window tt - ov * 4)" 0 "[]"]
  obtain rest where r: "chunk_loop doc (window tt) (max 0 (window tt - ov * 4)) 0 [] = Some rest"
    and r2: "rest \<noteq> []"
    and r3: "\<forall>k<length rest. rest ! k = window_at doc (window tt) (int k * step tt ov)"
    and r4: "\<forall>k<length rest. fst (snd (rest ! k)) = int (length doc) \<longrightarrow> Suc k = length rest"
    and r5: "step tt ov \<le> window tt \<longrightarrow> fst (snd (last rest)) = int (length doc)"
    and r6: "\<forall>k<length rest. fst (rest ! k) < int (length doc)"
    unfolding adv using npos by auto
  show ?thesis
    unfolding ct c_end_def c_start_def
    by (rule exI[of _ rest]) (use r r2 r3 r4 r5 r6 False in blast)
qed


lemma py_slice_inside:
  "0 \<le> i \<Longrightarrow> i \<le> j \<Longrightarrow> j \<le> int (length xs) \<Longrightarrow>
   py_slice xs i j = take (nat (j - i)) (drop (nat i) xs)"
  by (simp add: py_slice_def py_index_def Let_def min_def nat_diff_distrib)

lemma py_slice_all: "py_slice xs 0 (int (length xs)) = xs"
  by (simp add: py_slice_def py_index_def)

text \<open>
  Claim C6. \<^verbatim>\<open>chunk_text\<close> returns for every text, every \<^verbatim>\<open>target_tokens\<close> and every
  \<^verbatim>\<open>overlap\<close>, also when \<open>overlap * 4\<close> reaches the window. In the returned list the
  \<open>k\<close>-th span starts at \<open>k\<close> times the effective advance (the window minus
  \<open>overlap * 4\<close> when that is positive, the full window otherwise), it ends at the
  window's end clipped to the length of the text, and a span that ends at the length of
  the text is the last one: the loop stops right after it. When \<^verbatim>\<open>overlap\<close> is not
  negative, the degenerate case included, a text that is not empty always ends the loop
  that way: its last span ends at the length of the text.
\<close>

theorem chunk_text_terminates:
  "\<exists>cs. chunk_text doc tt ov = Some cs \<and>
     (\<forall>k<length cs. c_start (cs ! k) = int k * step tt ov \<and>
                      c_end (cs ! k) = min (int (length doc)) (c_start (cs ! k) + window tt)) \<and>
     (\<forall>k<length cs. c_end (cs ! k) = int (length doc) \<longrightarrow> Suc k = length cs) \<and>
     (0 \<le> ov \<longrightarrow> doc \<noteq> [] \<longrightarrow> cs \<noteq> [] \<and> c_end (last cs) = int (length doc))"
proof -
  from chunk_text_shape[of doc tt ov]
  obtain cs where r: "chunk_text doc tt ov = Some cs"
    and r2: "doc \<noteq> [] \<longrightarrow> cs \<noteq> []"
    and r3: "\<forall>k<length cs. cs ! k = window_at doc (window tt) (int k * step tt ov)"
    and r4: "\<forall>k<length cs. c_end (cs ! k) = int (length doc) \<longrightarrow> Suc k = length cs"
    and r5: "step tt ov \<le> window tt \<longrightarrow> doc \<noteq> [] \<longrightarrow> c_end (last cs) = int (length doc)"
    by blast
  have a: "\<forall>k<length cs. c_start (cs ! k) = int k * step tt ov \<and>
                      c_end (cs ! k) = min (int (length doc)) (c_start (cs ! k) + window tt)"
    using r3 by (simp add: window_at_def c_start_def c_end_def)
  have "0 \<le> ov \<Longrightarrow> step tt ov \<le> window tt" by (simp add: step_def)
  then have b: "0 \<le> ov \<longrightarrow> doc \<noteq> [] \<longrightarrow> cs \<noteq> [] \<and> c_end (last cs) = int (length doc)"
    using r2 r5 by blast
  show ?thesis by (rule exI[of _ cs]) (intro conjI r a r4 b)
qed

theorem chunk_text_terminates_witness:
  "chunk_text (replicate 450 CHR ''a'') 50 60 =
     Some [(0, 200, replicate 200 CHR ''a''), (200, 400, replicate 200 CHR ''a''),
           (400, 450, replicate 50 CHR ''a'')] \<and>
   step 50 60 = 200 \<and> window 50 = 200 \<and> (0 :: int) \<le> 60 \<and>
   c_end (400, 450, replicate 50 CHR ''a'') = int (length (replicate 450 CHR ''a''))"
proof -
  let ?doc = "replicate 450 CHR ''a''"
  let ?out = "[(0, 200, replicate 200 CHR ''a''), (200, 400, replicate 200 CHR ''a''),
               (400, 450, replicate 50 CHR ''a'')] :: chunk_span list"
  have sw: "step 50 60 = 200" "window 50 = 200"
    by (simp_all add: step_def window_def)
  from chunk_text_terminates[of ?doc 50 60]
  obtain cs where r: "chunk_text ?doc 50 60 = Some cs"
    and a: "\<forall>k<length cs. c_start (cs ! k) = int k * step 50 60 \<and>
              c_end (cs ! k) = min (int (length ?doc)) (c_start (cs ! k) + window 50)"
    and b: "\<forall>k<length cs. c_end (cs ! k) = int (length ?doc) \<longrightarrow> Suc k = length cs"
    by (elim exE conjE) (rule that)
  have "chunk_text ?doc 50 60 = Some ?out"
    by (simp add: chunk_text_def chunk_loop.simps py_slice_def py_index_def)
  with r have "cs = ?out" by simp
  with r sw show ?thesis by (simp add: c_end_def)
qed

text \<open>
  Claim C5, as amended. For every text, every \<^verbatim>\<open>target_tokens\<close> and every
  \<^verbatim>\<open>overlap\<close> that is not negative, \<^verbatim>\<open>chunk_text\<close> returns spans that cover exactly the
  character range from 0 to the length of the text: empty text gives the empty list; for
  a text that is not empty the first span starts at 0 and the last span ends at the length
  of the text; the starts increase and each span starts no later than the end of the span
  before it (no gap); every span lies inside the text and carries exactly the characters
  of its range; the union of the ranges is the whole range; and a text that is not empty
  and no longer than the effective window gives exactly one span, the whole text.
\<close>

theorem chunk_text_covers:
  assumes "0 \<le> ov"
  shows "\<exists>cs. chunk_text doc tt ov = Some cs \<and>
     (doc = [] \<longrightarrow> cs = []) \<and>
     (doc \<noteq> [] \<longrightarrow> cs \<noteq> [] \<and> c_start (hd cs) = 0 \<and> c_end (last cs) = int (length doc)) \<and>
     (\<forall>k. Suc k < length cs \<longrightarrow>
          c_start (cs ! k) < c_start (cs ! Suc k) \<and> c_start (cs ! Suc k) \<le> c_end (cs ! k)) \<and>
     (\<forall>k<length cs. 0 \<le> c_start (cs ! k) \<and> c_start (cs ! k) < c_end (cs ! k) \<and>
          c_end (cs ! k) \<le> int (length doc) \<and>
          c_text (cs ! k) =
            take (nat (c_end (cs ! k) - c_start (cs ! k))) (drop (nat (c_start (cs ! k))) doc)) \<and>
     (\<Union>k<length cs. {c_start (cs ! k) ..< c_end (cs ! k)}) = {0 ..< int (length doc)} \<and>
     (doc \<noteq> [] \<and> int (length doc) \<le> window tt \<longrightarrow> cs = [(0, int (length doc), doc)])"
proof -
  let ?n = "int (length doc)"
  let ?w = "window tt"
  let ?d = "step tt ov"
  have wpos: "0 < ?w" by (simp add: window_def)
  have dpos: "0 < ?d" using wpos by (simp add: step_def)
  have dle: "?d \<le> ?w" using assms by (simp add: step_def)
  from chunk_text_shape[of doc tt ov]
  obtain cs where r: "chunk_text doc tt ov = Some cs"
    and r1: "doc = [] \<longrightarrow> cs = []"
    and r2: "doc \<noteq> [] \<longrightarrow> cs \<noteq> []"
    and r3: "\<forall>k<length cs. cs ! k = window_at doc ?w (int k * ?d)"
    and r4: "\<forall>k<length cs. c_end (cs ! k) = ?n \<longrightarrow> Suc k = length cs"
    and r5: "?d \<le> ?w \<longrightarrow> doc \<noteq> [] \<longrightarrow> c_end (last cs) = ?n"
    and r6: "\<forall>k<length cs. c_start (cs ! k) < ?n"
    by blast
  have st: "c_start (cs ! k) = int k * ?d" if "k < length cs" for k
    using r3 that by (simp add: window_at_def c_start_def)
  have en: "c_end (cs ! k) = min ?n (int k * ?d + ?w)" if "k < length cs" for k
    using r3 that by (simp add: window_at_def c_end_def)
  have tx: "c_text (cs ! k) = py_slice doc (int k * ?d) (min ?n (int k * ?d + ?w))"
    if "k < length cs" for k
    using r3 that by (simp add: window_at_def c_text_def)
  have stn: "int k * ?d < ?n" if "k < length cs" for k
    using r6 st that by simp
  have st0: "0 \<le> int k * ?d" for k using dpos by simp
  have a2: "doc \<noteq> [] \<longrightarrow> cs \<noteq> [] \<and> c_start (hd cs) = 0 \<and> c_end (last cs) = ?n"
  proof
    assume ne: "doc \<noteq> []"
    then have cne: "cs \<noteq> []" using r2 by blast
    then have "hd cs = cs ! 0" by (simp add: hd_conv_nth)
    moreover have "c_start (cs ! 0) = 0" using st[of 0] cne by simp
    ultimately show "cs \<noteq> [] \<and> c_start (hd cs) = 0 \<and> c_end (last cs) = ?n"
      using cne r5 dle ne by simp
  qed
  have a3: "\<forall>k. Suc k < length cs \<longrightarrow>
          c_start (cs ! k) < c_start (cs ! Suc k) \<and> c_start (cs ! Suc k) \<le> c_end (cs ! k)"
  proof (intro allI impI)
    fix k assume k: "Suc k < length cs"
    then have kl: "k < length cs" by simp
    have "c_end (cs ! k) \<noteq> ?n"
    proof
      assume "c_end (cs ! k) = ?n"
      then have "Suc k = length cs" using r4 kl by blast
      then show False using k by simp
    qed
    then have e: "c_end (cs ! k) = int k * ?d + ?w" using en[OF kl] by (simp add: min_def split: if_splits)
    have s1: "c_start (cs ! Suc k) = int k * ?d + ?d" using st[OF k] by (simp add: algebra_simps)
    show "c_start (cs ! k) < c_start (cs ! Suc k) \<and> c_start (cs ! Suc k) \<le> c_end (cs ! k)"
      using e s1 st[OF kl] dpos dle by simp
  qed
  have a4: "\<forall>k<length cs. 0 \<le> c_start (cs ! k) \<and> c_start (cs ! k) < c_end (cs ! k) \<and>
          c_end (cs ! k) \<le> ?n \<and>
          c_text (cs ! k) =
            take (nat (c_end (cs ! k) - c_start (cs ! k))) (drop (nat (c_start (cs ! k))) doc)"
  proof (intro allI impI)
    fix k assume kl: "k < length cs"
    have b1: "0 \<le> c_start (cs ! k)" using st[OF kl] st0 by simp
    have b2: "c_start (cs ! k) < c_end (cs ! k)" using st[OF kl] en[OF kl] stn[OF kl] wpos by simp
    have b3: "c_end (cs ! k) \<le> ?n" using en[OF kl] by simp
    have "c_text (cs ! k) = py_slice doc (c_start (cs ! k)) (c_end (cs ! k))"
      using tx[OF kl] st[OF kl] en[OF kl] by simp
    then have b4: "c_text (cs ! k) =
        take (nat (c_end (cs ! k) - c_start (cs ! k))) (drop (nat (c_start (cs ! k))) doc)"
      using py_slice_inside[OF b1 _ b3] b2 by simp
    show "0 \<le> c_start (cs ! k) \<and> c_start (cs ! k) < c_end (cs ! k) \<and>
          c_end (cs ! k) \<le> ?n \<and>
          c_text (cs ! k) =
            take (nat (c_end (cs ! k) - c_start (cs ! k))) (drop (nat (c_start (cs ! k))) doc)"
      using b1 b2 b3 b4 by blast
  qed
  have a5: "(\<Union>k<length cs. {c_start (cs ! k) ..< c_end (cs ! k)}) = {0 ..< ?n}"
  proof (intro equalityI subsetI)
    fix x assume "x \<in> (\<Union>k<length cs. {c_start (cs ! k) ..< c_end (cs ! k)})"
    then obtain k where kl: "k < length cs" and x: "c_start (cs ! k) \<le> x" "x < c_end (cs ! k)"
      by auto
    then show "x \<in> {0 ..< ?n}" using a4 by fastforce
  next
    fix x assume "x \<in> {0 ..< ?n}"
    then have x0: "0 \<le> x" and xn: "x < ?n" by simp_all
    then have ne: "doc \<noteq> []" by auto
    then have cne: "cs \<noteq> []" using r2 by blast
    define k where "k = min (length cs - 1) (nat (x div ?d))"
    have "0 < length cs" using cne by simp
    then have kl: "k < length cs" unfolding k_def by linarith
    have q0: "0 \<le> x div ?d" using x0 dpos by (simp add: pos_imp_zdiv_nonneg_iff)
    have "k \<le> nat (x div ?d)" unfolding k_def by simp
    then have kx: "int k \<le> x div ?d" using q0 by linarith
    have "int k * ?d \<le> (x div ?d) * ?d" using kx dpos by (simp add: mult_right_mono)
    also have "\<dots> \<le> x" using dpos by (metis div_mult_mod_eq le_add_same_cancel1 pos_mod_sign)
    finally have lo: "c_start (cs ! k) \<le> x" using st[OF kl] by simp
    have hi: "x < c_end (cs ! k)"
    proof (cases "Suc k = length cs")
      case True
      then have "last cs = cs ! k" using cne by (metis diff_Suc_1 last_conv_nth)
      then show ?thesis using a2 ne xn by simp
    next
      case False
      then have sk: "Suc k < length cs" using kl by simp
      then have "k = nat (x div ?d)" by (simp add: k_def min_def split: if_splits)
      then have "int k = x div ?d" using q0 by simp
      then have "x < int k * ?d + ?d"
        using dpos by (metis add.commute div_mult_mod_eq add_less_cancel_left pos_mod_bound mult.commute)
      then have "x < c_start (cs ! Suc k)" using st[OF sk] by (simp add: algebra_simps)
      then show ?thesis using a3 sk by fastforce
    qed
    show "x \<in> (\<Union>k<length cs. {c_start (cs ! k) ..< c_end (cs ! k)})"
      using kl lo hi by auto
  qed
  have a6: "doc \<noteq> [] \<and> ?n \<le> ?w \<longrightarrow> cs = [(0, ?n, doc)]"
  proof
    assume h: "doc \<noteq> [] \<and> ?n \<le> ?w"
    then have cne: "cs \<noteq> []" using r2 by blast
    then have z: "0 < length cs" by simp
    have c0: "cs ! 0 = (0, ?n, doc)"
      using r3 z h by (simp add: window_at_def py_slice_all)
    then have "c_end (cs ! 0) = ?n" by (simp add: c_end_def)
    then have "length cs = 1" using r4 z by auto
    then show "cs = [(0, ?n, doc)]" using c0 by (cases cs) auto
  qed
  show ?thesis
    by (rule exI[of _ cs]) (intro conjI r r1 a2 a3 a4 a5 a6)
qed

theorem chunk_text_covers_witness:
  "(0::int) \<le> 20 \<and>
   chunk_text (replicate 450 CHR ''a'') 50 20 =
     Some [(0, 200, replicate 200 CHR ''a''), (120, 320, replicate 200 CHR ''a''),
           (240, 440, replicate 200 CHR ''a''), (360, 450, replicate 90 CHR ''a'')] \<and>
   chunk_text ''abc'' 50 20 = Some [(0, 3, ''abc'')]"
proof -
  let ?doc = "replicate 450 CHR ''a''"
  have h: "(0::int) \<le> 20" by simp
  from chunk_text_covers[OF h, of ?doc 50]
  obtain cs where r: "chunk_text ?doc 50 20 = Some cs"
    and "c_end (last cs) = int (length ?doc)"
    by auto
  have e: "chunk_text ?doc 50 20 =
     Some [(0, 200, replicate 200 CHR ''a''), (120, 320, replicate 200 CHR ''a''),
           (240, 440, replicate 200 CHR ''a''), (360, 450, replicate 90 CHR ''a'')]"
    by (simp add: chunk_text_def chunk_loop.simps py_slice_def py_index_def)
  have "chunk_text ''abc'' 50 20 = Some [(0, 3, ''abc'')]"
    using chunk_text_covers[OF h, of "''abc''" 50] by (auto simp: window_def)
  with h r e show ?thesis by simp
qed

text \<open>
  With a negative \<^verbatim>\<open>overlap\<close> the stride exceeds the window: on a text of 250 characters
  with a window of 200 and \<open>overlap = -25\<close> (stride 300) the only span is \<open>[0, 200)\<close>
  and the loop leaves by its \<^verbatim>\<open>while\<close> condition, so the last span ends before the end
  of the text and the characters from 200 on are in no span.
\<close>

theorem chunk_text_negative_overlap_counterexample:
  "chunk_text (replicate 250 CHR ''a'') 50 (- 25) = Some [(0, 200, replicate 200 CHR ''a'')] \<and>
   c_end (last [(0, 200, replicate 200 CHR ''a'')]) < int (length (replicate 250 CHR ''a'')) \<and>
   (200::int) \<notin> {c_start (0, 200, replicate 200 CHR ''a'') ..<
                     c_end (0, 200, replicate 200 CHR ''a'')}"
  by (simp add: chunk_text_def chunk_loop.simps py_slice_def py_index_def c_end_def c_start_def)

section \<open>Properties of the indexing pipeline\<close>

lemma diff_loop_filter:
  "diff_loop md known fs acc =
     acc @ filter (\<lambda>f. md = ''full'' \<or> known (f_path f) = None \<or>
                        known (f_path f) \<noteq> Some (f_sha256 f)) fs"
  by (induction fs arbitrary: acc) simp_all

text \<open>
  Claim C7. The changed subset that \<^verbatim>\<open>diff\<close> stores is: every discovered file when
  \<^verbatim>\<open>force_reembed\<close> is true, whatever the mode; every discovered file when the mode is
  \<^verbatim>\<open>"full"\<close>; and otherwise exactly the discovered files, in their order, whose path has no
  row in the fingerprint table or whose fingerprint differs from the stored one.
\<close>

theorem diff_changed_subset:
  "changed (diff db s) =
     (if force_reembed s then files s
      else if mode s = Some ''full'' then files s
      else filter (\<lambda>f. db (f_path f) = None \<or>
                        map_option r_sha256 (db (f_path f)) \<noteq> Some (f_sha256 f)) (files s))"
  by (cases "mode s") (auto simp: diff_def diff_loop_filter known_of_def Let_def)

lemma parse_loop_eq:
  "parse_loop rd fs texts errs =
     (texts @ map (\<lambda>f. (f, read_or_empty rd (f_path f)))
                (filter (\<lambda>f. read_or_empty rd (f_path f) \<noteq> []) fs),
      errs @ map (\<lambda>f. ''parse-empty:'' @ f_path f)
               (filter (\<lambda>f. read_or_empty rd (f_path f) = []) fs))"
  by (induction fs arbitrary: texts errs) (simp_all add: Let_def)

lemma map_enumerate_fst:
  "map (\<lambda>x. g (fst x)) (enumerate n xs) = map g [n ..< n + length xs]"
  by (induction xs arbitrary: n) (simp_all del: upt_Suc add: upt_conv_Cons)

lemma chunk_text_returns: "\<exists>spans. chunk_text doc tt ov = Some spans"
  using chunk_text_shape[of doc tt ov] by blast

lemma chunk_files_eq:
  "\<exists>cs. chunk_files ts acc = Some (acc @ cs) \<and>
        set (map ch_file cs) \<subseteq> fst ` set ts \<and>
        map (\<lambda>c. f_sha256 (ch_file c) @ '':'' @ str_nat (ch_idx c)) cs =
          ids_of_content (map (\<lambda>(f, t). (f_sha256 f, t)) (filter (\<lambda>(f, t). t \<noteq> []) ts))"
proof (induction ts arbitrary: acc)
  case Nil
  then show ?case by (simp add: ids_of_content_def)
next
  case (Cons ft ts)
  obtain f t where ft: "ft = (f, t)" by (cases ft)
  obtain spans where sp: "chunk_text t 800 80 = Some spans"
    using chunk_text_returns by blast
  from Cons[of "acc @ file_chunks f spans"]
  obtain cs where c: "chunk_files ts (acc @ file_chunks f spans) = Some ((acc @ file_chunks f spans) @ cs)"
    and c2: "set (map ch_file cs) \<subseteq> fst ` set ts"
    and c3: "map (\<lambda>c. f_sha256 (ch_file c) @ '':'' @ str_nat (ch_idx c)) cs =
          ids_of_content (map (\<lambda>(f, t). (f_sha256 f, t)) (filter (\<lambda>(f, t). t \<noteq> []) ts))"
    by blast
  have fc_ids: "map (\<lambda>c. f_sha256 (ch_file c) @ '':'' @ str_nat (ch_idx c)) (file_chunks f spans) =
        map (\<lambda>k. f_sha256 f @ '':'' @ str_nat k) [0 ..< length spans]"
  proof -
    have "map (\<lambda>c. f_sha256 (ch_file c) @ '':'' @ str_nat (ch_idx c)) (file_chunks f spans) =
          map (\<lambda>x. (\<lambda>k. f_sha256 f @ '':'' @ str_nat k) (fst x)) (enumerate 0 spans)"
      by (simp add: file_chunks_def split_beta o_def)
    also have "\<dots> = map (\<lambda>k. f_sha256 f @ '':'' @ str_nat k) [0 ..< length spans]"
      using map_enumerate_fst[of "\<lambda>k. f_sha256 f @ '':'' @ str_nat k" 0 spans] by simp
    finally show ?thesis .
  qed
  have fc_file: "set (map ch_file (file_chunks f spans)) \<subseteq> {f}"
    by (auto simp: file_chunks_def split_beta)
  have tne: "t = [] \<Longrightarrow> spans = []"
    using sp by (simp add: chunk_text_def)
  have ids_cons: "ids_of_content ((h, t) # ps) =
      (if t = [] then [] else map (\<lambda>k. h @ '':'' @ str_nat k) [0 ..< length spans]) @ ids_of_content ps"
    for h ps
    using sp by (simp add: ids_of_content_def)
  show ?case
    apply (rule exI[of _ "file_chunks f spans @ cs"])
    using c c2 c3 fc_ids fc_file tne sp ft
    apply (auto simp: ids_cons ids_of_content_def)
    done
qed


lemma parse_chunk_eq:
  "\<exists>cs. parse_chunk rd s =
          Some (s\<lparr>chunks := cs,
                  errors := errors s @ map (\<lambda>f. ''parse-empty:'' @ f_path f)
                     (filter (\<lambda>f. read_or_empty rd (f_path f) = []) (changed s)),
                  stats := (stats s)(''chunks'' \<mapsto> length cs)\<rparr>) \<and>
        (\<forall>c\<in>set cs. ch_file c \<in> set (changed s) \<and> read_or_empty rd (f_path (ch_file c)) \<noteq> []) \<and>
        map (\<lambda>c. f_sha256 (ch_file c) @ '':'' @ str_nat (ch_idx c)) cs =
          ids_of_content (map (\<lambda>f. (f_sha256 f, read_or_empty rd (f_path f))) (changed s))"
proof -
  let ?ts = "map (\<lambda>f. (f, read_or_empty rd (f_path f)))
                (filter (\<lambda>f. read_or_empty rd (f_path f) \<noteq> []) (changed s))"
  from chunk_files_eq[of ?ts "[]"]
  obtain cs where c: "chunk_files ?ts [] = Some cs"
    and c2: "set (map ch_file cs) \<subseteq> fst ` set ?ts"
    and c3: "map (\<lambda>c. f_sha256 (ch_file c) @ '':'' @ str_nat (ch_idx c)) cs =
          ids_of_content (map (\<lambda>(f, t). (f_sha256 f, t)) (filter (\<lambda>(f, t). t \<noteq> []) ?ts))"
    by auto
  have f1: "filter (\<lambda>(f, t). t \<noteq> []) ?ts = ?ts"
    by (simp add: filter_map o_def)
  have drop_empty: "ids_of_content (map g (filter (\<lambda>f. snd (g f) \<noteq> []) fs)) = ids_of_content (map g fs)"
    for g :: "file_rec \<Rightarrow> string \<times> string" and fs
    by (induction fs) (auto simp: ids_of_content_def split_beta)
  have "map (\<lambda>(f, t). (f_sha256 f, t)) ?ts =
        map (\<lambda>f. (f_sha256 f, read_or_empty rd (f_path f)))
          (filter (\<lambda>f. snd (f_sha256 f, read_or_empty rd (f_path f)) \<noteq> []) (changed s))"
    by (simp add: o_def)
  then have f2: "ids_of_content (map (\<lambda>(f, t). (f_sha256 f, t)) ?ts) =
        ids_of_content (map (\<lambda>f. (f_sha256 f, read_or_empty rd (f_path f))) (changed s))"
    using drop_empty[of "\<lambda>f. (f_sha256 f, read_or_empty rd (f_path f))" "changed s"]
    by (simp only: snd_conv)
  have p: "parse_chunk rd s =
          Some (s\<lparr>chunks := cs,
                  errors := errors s @ map (\<lambda>f. ''parse-empty:'' @ f_path f)
                     (filter (\<lambda>f. read_or_empty rd (f_path f) = []) (changed s)),
                  stats := (stats s)(''chunks'' \<mapsto> length cs)\<rparr>)"
    using c by (simp add: parse_chunk_def parse_loop_eq)
  have q: "\<forall>c\<in>set cs. ch_file c \<in> set (changed s) \<and> read_or_empty rd (f_path (ch_file c)) \<noteq> []"
    using c2 by auto
  show ?thesis using p q c3 f1 f2 by (intro exI[of _ cs]) simp
qed

lemma commit_loop_other:
  "p \<notin> f_path ` set fs \<Longrightarrow> commit_loop now fs db p = db p"
  by (induction fs arbitrary: db) auto

lemma commit_loop_path:
  "p \<in> f_path ` set fs \<Longrightarrow>
   \<exists>g\<in>set fs. f_path g = p \<and> commit_loop now fs db p = Some (row_of now g)"
proof (induction fs arbitrary: db)
  case Nil
  then show ?case by simp
next
  case (Cons a fs)
  show ?case
  proof (cases "p \<in> f_path ` set fs")
    case True
    from Cons.IH[OF True, of "db(f_path a \<mapsto> row_of now a)"]
    obtain g where g: "g \<in> set fs" "f_path g = p"
      "commit_loop now fs (db(f_path a \<mapsto> row_of now a)) p = Some (row_of now g)"
      by blast
    have "g \<in> set (a # fs)" using g(1) by simp
    moreover have "commit_loop now (a # fs) db p = Some (row_of now g)" using g(3) by simp
    ultimately show ?thesis using g(2) by blast
  next
    case False
    with Cons.prems have pa: "p = f_path a" by auto
    have "commit_loop now (a # fs) db p = (db(f_path a \<mapsto> row_of now a)) p"
      using commit_loop_other[OF False, of now "db(f_path a \<mapsto> row_of now a)"] by simp
    then have "commit_loop now (a # fs) db p = Some (row_of now a)" using pa by simp
    moreover have "a \<in> set (a # fs)" by simp
    ultimately show ?thesis using pa by blast
  qed
qed

lemma commit_loop_in:
  "f \<in> set fs \<Longrightarrow>
   \<exists>g\<in>set fs. f_path g = f_path f \<and> commit_loop now fs db (f_path f) = Some (row_of now g)"
  using commit_loop_path[of "f_path f" fs now db] by blast

lemma commit_loop_distinct:
  "distinct (map f_path fs) \<Longrightarrow> f \<in> set fs \<Longrightarrow>
   commit_loop now fs db (f_path f) = Some (row_of now f)"
proof -
  assume d: "distinct (map f_path fs)" and f: "f \<in> set fs"
  from commit_loop_in[OF f, of now db]
  obtain g where g: "g \<in> set fs" "f_path g = f_path f"
    "commit_loop now fs db (f_path f) = Some (row_of now g)" by blast
  have "g = f" using d f g(1,2) by (meson distinct_map inj_onD)
  then show ?thesis using g(3) by simp
qed

text \<open>
  Claim C9. After \<^verbatim>\<open>parse_chunk\<close> (which returns, and leaves the changed subset as it
  was) \<^verbatim>\<open>commit_run\<close> leaves under the path of every file of the changed subset the row of
  a changed file with that path, stamped with the current time: the row of that very file
  when the paths of the changed subset are distinct. Every path that is not the path of a
  changed file keeps the row, or the absence of a row, it had. A changed file whose
  extraction gave the empty text has its \<^verbatim>\<open>parse-empty:<path>\<close> soft error recorded and
  no chunk, and has its row all the same.
\<close>

theorem commit_run_upserts_changed:
  "\<exists>t. parse_chunk rd s = Some t \<and> changed t = changed s \<and>
     (\<forall>f\<in>set (changed s).
        \<exists>g\<in>set (changed s). f_path g = f_path f \<and>
          fst (commit_run now db t) (f_path f) = Some (row_of now g)) \<and>
     (\<forall>f\<in>set (changed s). distinct (map f_path (changed s)) \<longrightarrow>
          fst (commit_run now db t) (f_path f) = Some (row_of now f)) \<and>
     (\<forall>p. p \<notin> f_path ` set (changed s) \<longrightarrow> fst (commit_run now db t) p = db p) \<and>
     (\<forall>f\<in>set (changed s). read_or_empty rd (f_path f) = [] \<longrightarrow>
          (''parse-empty:'' @ f_path f) \<in> set (errors t) \<and>
          (\<forall>c\<in>set (chunks t). ch_file c \<noteq> f) \<and>
          fst (commit_run now db t) (f_path f) \<noteq> None)"
proof -
  from parse_chunk_eq[of rd s]
  obtain cs where p: "parse_chunk rd s =
          Some (s\<lparr>chunks := cs,
                  errors := errors s @ map (\<lambda>f. ''parse-empty:'' @ f_path f)
                     (filter (\<lambda>f. read_or_empty rd (f_path f) = []) (changed s)),
                  stats := (stats s)(''chunks'' \<mapsto> length cs)\<rparr>)"
    and q: "\<forall>c\<in>set cs. ch_file c \<in> set (changed s) \<and> read_or_empty rd (f_path (ch_file c)) \<noteq> []"
    by blast
  let ?t = "s\<lparr>chunks := cs,
                  errors := errors s @ map (\<lambda>f. ''parse-empty:'' @ f_path f)
                     (filter (\<lambda>f. read_or_empty rd (f_path f) = []) (changed s)),
                  stats := (stats s)(''chunks'' \<mapsto> length cs)\<rparr>"
  have db: "fst (commit_run now db ?t) = commit_loop now (changed s) db"
    by (simp add: commit_run_def)
  have a1: "\<forall>f\<in>set (changed s).
        \<exists>g\<in>set (changed s). f_path g = f_path f \<and>
          fst (commit_run now db ?t) (f_path f) = Some (row_of now g)"
    unfolding db using commit_loop_in by blast
  have a2: "\<forall>f\<in>set (changed s). distinct (map f_path (changed s)) \<longrightarrow>
          fst (commit_run now db ?t) (f_path f) = Some (row_of now f)"
    unfolding db using commit_loop_distinct by blast
  have a3: "\<forall>p. p \<notin> f_path ` set (changed s) \<longrightarrow> fst (commit_run now db ?t) p = db p"
    unfolding db using commit_loop_other by blast
  have a4: "\<forall>f\<in>set (changed s). read_or_empty rd (f_path f) = [] \<longrightarrow>
          (''parse-empty:'' @ f_path f) \<in> set (errors ?t) \<and>
          (\<forall>c\<in>set (chunks ?t). ch_file c \<noteq> f) \<and>
          fst (commit_run now db ?t) (f_path f) \<noteq> None"
  proof (intro ballI impI)
    fix f assume f: "f \<in> set (changed s)" and e: "read_or_empty rd (f_path f) = []"
    have "(''parse-empty:'' @ f_path f) \<in> set (errors ?t)" using f e by auto
    moreover have "\<forall>c\<in>set (chunks ?t). ch_file c \<noteq> f" using q e by auto
    moreover have "fst (commit_run now db ?t) (f_path f) \<noteq> None" using a1 f by force
    ultimately show "(''parse-empty:'' @ f_path f) \<in> set (errors ?t) \<and>
          (\<forall>c\<in>set (chunks ?t). ch_file c \<noteq> f) \<and>
          fst (commit_run now db ?t) (f_path f) \<noteq> None" by blast
  qed
  have a0: "changed ?t = changed s" by simp
  show ?thesis
    by (rule exI[of _ ?t]) (intro conjI p a0 a1 a2 a3 a4)
qed


lemma build_batch_ids:
  "fst (build_batch dflt mdl cs (ids, docs, metas)) =
     ids @ map (\<lambda>c. f_sha256 (ch_file c) @ '':'' @ str_nat (ch_idx c)) cs"
  by (induction cs arbitrary: ids docs metas) (simp_all add: Let_def)

lemma vector_ids_eq:
  "vector_ids dflt s = map (\<lambda>c. f_sha256 (ch_file c) @ '':'' @ str_nat (ch_idx c)) (chunks s)"
  by (simp add: vector_ids_def build_batch_ids)

lemma col_upsert_loop_dom:
  "col_upsert_loop st i ids docs metas embs = Inr st' \<Longrightarrow> dom st' = dom st \<union> set ids"
proof (induction ids arbitrary: st i)
  case Nil
  then show ?case by simp
next
  case (Cons vid ids)
  from Cons.prems have ok: "i < length docs \<and> i < length metas \<and> i < length embs"
    by (simp split: if_splits)
  with Cons.prems have
    "col_upsert_loop (st(vid \<mapsto> (docs ! i, metas ! i, embs ! i))) (Suc i) ids docs metas embs = Inr st'"
    by simp
  from Cons.IH[OF this] show ?case by auto
qed

lemma upsert_vectors_dom:
  assumes "upsert_vectors dflt col s = Inr (col', u)"
  shows "dom col' = dom col \<union> set (vector_ids dflt s)"
proof -
  obtain ids docs metas where b: "build_batch dflt (model s) (chunks s) ([], [], []) = (ids, docs, metas)"
    by (cases "build_batch dflt (model s) (chunks s) ([], [], [])") auto
  then have v: "vector_ids dflt s = ids" by (simp add: vector_ids_def)
  show ?thesis
  proof (cases "ids = []")
    case True
    with assms b have "col' = col" by (simp add: upsert_vectors_def)
    with True v show ?thesis by simp
  next
    case False
    with assms b have "col_upsert col ids docs metas (embeddings s) = Inr col'"
      by (auto simp: upsert_vectors_def split: sum.splits)
    then show ?thesis unfolding v col_upsert_def by (rule col_upsert_loop_dom)
  qed
qed

text \<open>
  Claim C8. The id of a vector record is \<^verbatim>\<open><sha256>:<chunk_idx>\<close>, and the list of ids of a
  run is a function of the fingerprints and the extracted texts of the changed files
  alone. Two runs whose changed files have, position by position, the same fingerprint and
  the same extracted text (paths, times, sizes, models and embeddings may differ) build
  the same list of ids, hence the same multiset; and when the second run upserts into the
  store the first run left, the store has exactly the ids it had: the ids of the first
  run were added to it once.
\<close>

theorem vector_ids_idempotent:
  assumes "map f_sha256 (changed s1) = map f_sha256 (changed s2)"
    and "map (\<lambda>f. read_or_empty rd1 (f_path f)) (changed s1) =
         map (\<lambda>f. read_or_empty rd2 (f_path f)) (changed s2)"
  shows "\<exists>t1 t2. parse_chunk rd1 s1 = Some t1 \<and> parse_chunk rd2 s2 = Some t2 \<and>
     vector_ids d1 t1 = map (\<lambda>c. f_sha256 (ch_file c) @ '':'' @ str_nat (ch_idx c)) (chunks t1) \<and>
     vector_ids d1 t1 =
       ids_of_content (map (\<lambda>f. (f_sha256 f, read_or_empty rd1 (f_path f))) (changed s1)) \<and>
     vector_ids d2 t2 = vector_ids d1 t1 \<and>
     mset (vector_ids d2 t2) = mset (vector_ids d1 t1) \<and>
     (\<forall>col col1 col2 u1 u2 e1 e2.
        upsert_vectors d1 col (t1\<lparr>embeddings := e1\<rparr>) = Inr (col1, u1) \<longrightarrow>
        upsert_vectors d2 col1 (t2\<lparr>embeddings := e2\<rparr>) = Inr (col2, u2) \<longrightarrow>
        dom col1 = dom col \<union> set (vector_ids d1 t1) \<and> dom col2 = dom col1)"
proof -
  from parse_chunk_eq[of rd1 s1]
  obtain t1 where p1: "parse_chunk rd1 s1 = Some t1"
    and i1: "map (\<lambda>c. f_sha256 (ch_file c) @ '':'' @ str_nat (ch_idx c)) (chunks t1) =
          ids_of_content (map (\<lambda>f. (f_sha256 f, read_or_empty rd1 (f_path f))) (changed s1))"
    by force
  from parse_chunk_eq[of rd2 s2]
  obtain t2 where p2: "parse_chunk rd2 s2 = Some t2"
    and i2: "map (\<lambda>c. f_sha256 (ch_file c) @ '':'' @ str_nat (ch_idx c)) (chunks t2) =
          ids_of_content (map (\<lambda>f. (f_sha256 f, read_or_empty rd2 (f_path f))) (changed s2))"
    by force
  have len: "length (changed s1) = length (changed s2)"
    using assms(1) by (metis length_map)
  have same: "map (\<lambda>f. (f_sha256 f, read_or_empty rd1 (f_path f))) (changed s1) =
              map (\<lambda>f. (f_sha256 f, read_or_empty rd2 (f_path f))) (changed s2)"
  proof (rule nth_equalityI)
    show "length (map (\<lambda>f. (f_sha256 f, read_or_empty rd1 (f_path f))) (changed s1)) =
          length (map (\<lambda>f. (f_sha256 f, read_or_empty rd2 (f_path f))) (changed s2))"
      using len by simp
  next
    fix i assume "i < length (map (\<lambda>f. (f_sha256 f, read_or_empty rd1 (f_path f))) (changed s1))"
    then have i: "i < length (changed s1)" "i < length (changed s2)" using len by simp_all
    have "map f_sha256 (changed s1) ! i = map f_sha256 (changed s2) ! i"
      using assms(1) by simp
    then have a: "f_sha256 (changed s1 ! i) = f_sha256 (changed s2 ! i)" using i by simp
    have "map (\<lambda>f. read_or_empty rd1 (f_path f)) (changed s1) ! i =
          map (\<lambda>f. read_or_empty rd2 (f_path f)) (changed s2) ! i"
      using assms(2) by simp
    then have b: "read_or_empty rd1 (f_path (changed s1 ! i)) =
                  read_or_empty rd2 (f_path (changed s2 ! i))" using i by simp
    show "map (\<lambda>f. (f_sha256 f, read_or_empty rd1 (f_path f))) (changed s1) ! i =
          map (\<lambda>f. (f_sha256 f, read_or_empty rd2 (f_path f))) (changed s2) ! i"
      using a b i by simp
  qed
  have v1: "vector_ids d1 t1 = map (\<lambda>c. f_sha256 (ch_file c) @ '':'' @ str_nat (ch_idx c)) (chunks t1)"
    by (rule vector_ids_eq)
  have v1c: "vector_ids d1 t1 =
       ids_of_content (map (\<lambda>f. (f_sha256 f, read_or_empty rd1 (f_path f))) (changed s1))"
    using v1 i1 by simp
  have v2: "vector_ids d2 t2 = vector_ids d1 t1"
    using i1 i2 same by (simp add: vector_ids_eq)
  have st: "\<forall>col col1 col2 u1 u2 e1 e2.
        upsert_vectors d1 col (t1\<lparr>embeddings := e1\<rparr>) = Inr (col1, u1) \<longrightarrow>
        upsert_vectors d2 col1 (t2\<lparr>embeddings := e2\<rparr>) = Inr (col2, u2) \<longrightarrow>
        dom col1 = dom col \<union> set (vector_ids d1 t1) \<and> dom col2 = dom col1"
  proof (intro allI impI)
    fix col col1 col2 u1 u2 e1 e2
    assume a: "upsert_vectors d1 col (t1\<lparr>embeddings := e1\<rparr>) = Inr (col1, u1)"
      and b: "upsert_vectors d2 col1 (t2\<lparr>embeddings := e2\<rparr>) = Inr (col2, u2)"
    have "dom col1 = dom col \<union> set (vector_ids d1 (t1\<lparr>embeddings := e1\<rparr>))"
      using upsert_vectors_dom[OF a] .
    then have x: "dom col1 = dom col \<union> set (vector_ids d1 t1)"
      by (simp add: vector_ids_def)
    have "dom col2 = dom col1 \<union> set (vector_ids d2 (t2\<lparr>embeddings := e2\<rparr>))"
      using upsert_vectors_dom[OF b] .
    then have "dom col2 = dom col1 \<union> set (vector_ids d2 t2)"
      by (simp add: vector_ids_def)
    then have y: "dom col2 = dom col1" using x v2 by auto
    show "dom col1 = dom col \<union> set (vector_ids d1 t1) \<and> dom col2 = dom col1"
      using x y by blast
  qed
  have m: "mset (vector_ids d2 t2) = mset (vector_ids d1 t1)" using v2 by simp
  show ?thesis
    by (rule exI[of _ t1], rule exI[of _ t2]) (intro conjI p1 p2 v1 v1c v2 m st)
qed

subsection \<open>The pipeline on the example data\<close>

theorem diff_changed_subset_witness:
  "changed (diff ex_db ex_state) = [ex_b, ex_c] \<and>
   changed (diff ex_db (ex_state\<lparr>mode := Some ''full''\<rparr>)) = [ex_a, ex_b, ex_c] \<and>
   changed (diff ex_db (ex_state\<lparr>force_reembed := True\<rparr>)) = [ex_a, ex_b, ex_c]"
  using diff_changed_subset[of ex_db ex_state]
    diff_changed_subset[of ex_db "ex_state\<lparr>mode := Some ''full''\<rparr>"]
    diff_changed_subset[of ex_db "ex_state\<lparr>force_reembed := True\<rparr>"]
  by (simp add: ex_db_def ex_state_def ex_a_def ex_b_def ex_c_def row_of_def)

theorem commit_run_upserts_changed_witness:
  "\<exists>t. parse_chunk ex_rd (ex_state\<lparr>changed := [ex_b, ex_c]\<rparr>) = Some t \<and>
     ex_b \<in> set (changed (ex_state\<lparr>changed := [ex_b, ex_c]\<rparr>)) \<and>
     read_or_empty ex_rd (f_path ex_b) = [] \<and>
     ''parse-empty:/docs/b.md'' \<in> set (errors t) \<and>
     fst (commit_run ''t1'' ex_db t) ''/docs/b.md'' = Some (row_of ''t1'' ex_b) \<and>
     fst (commit_run ''t1'' ex_db t) ''/docs/c.json'' = Some (row_of ''t1'' ex_c) \<and>
     fst (commit_run ''t1'' ex_db t) ''/docs/a.txt'' = Some (row_of ''t0'' ex_a)"
proof -
  let ?s = "ex_state\<lparr>changed := [ex_b, ex_c]\<rparr>"
  from commit_run_upserts_changed[of ex_rd ?s "''t1''" ex_db]
  obtain t where p: "parse_chunk ex_rd ?s = Some t"
    and a: "\<forall>f\<in>set (changed ?s). distinct (map f_path (changed ?s)) \<longrightarrow>
          fst (commit_run ''t1'' ex_db t) (f_path f) = Some (row_of ''t1'' f)"
    and b: "\<forall>p. p \<notin> f_path ` set (changed ?s) \<longrightarrow> fst (commit_run ''t1'' ex_db t) p = ex_db p"
    and c: "\<forall>f\<in>set (changed ?s). read_or_empty ex_rd (f_path f) = [] \<longrightarrow>
          (''parse-empty:'' @ f_path f) \<in> set (errors t) \<and>
          (\<forall>c\<in>set (chunks t). ch_file c \<noteq> f) \<and>
          fst (commit_run ''t1'' ex_db t) (f_path f) \<noteq> None"
    by blast
  have m: "ex_b \<in> set (changed ?s)" "ex_c \<in> set (changed ?s)"
    by (simp_all add: ex_state_def)
  have d: "distinct (map f_path (changed ?s))"
    by (simp add: ex_state_def ex_b_def ex_c_def)
  have e: "read_or_empty ex_rd (f_path ex_b) = []"
    by (simp add: read_or_empty_def ex_rd_def ex_b_def)
  have o: "''/docs/a.txt'' \<notin> f_path ` set (changed ?s)"
    by (simp add: ex_state_def ex_b_def ex_c_def)
  have r1: "fst (commit_run ''t1'' ex_db t) (f_path ex_b) = Some (row_of ''t1'' ex_b)"
    using a m(1) d by blast
  have r2: "fst (commit_run ''t1'' ex_db t) (f_path ex_c) = Some (row_of ''t1'' ex_c)"
    using a m(2) d by blast
  have r3: "fst (commit_run ''t1'' ex_db t) ''/docs/a.txt'' = ex_db ''/docs/a.txt''"
    using b o by blast
  have r4: "(''parse-empty:'' @ f_path ex_b) \<in> set (errors t)"
    using c m(1) e by blast
  have "fst (commit_run ''t1'' ex_db t) ''/docs/b.md'' = Some (row_of ''t1'' ex_b)"
    using r1 by (simp add: ex_b_def)
  moreover have "fst (commit_run ''t1'' ex_db t) ''/docs/c.json'' = Some (row_of ''t1'' ex_c)"
    using r2 by (simp add: ex_c_def)
  moreover have "fst (commit_run ''t1'' ex_db t) ''/docs/a.txt'' = Some (row_of ''t0'' ex_a)"
    using r3 by (simp add: ex_db_def)
  moreover have "''parse-empty:/docs/b.md'' \<in> set (errors t)"
    using r4 by (simp add: ex_b_def)
  ultimately show ?thesis using p m(1) e by blast
qed

theorem vector_ids_idempotent_witness:
  "map f_sha256 [ex_c] = map f_sha256 [ex_c_copy] \<and>
   map (\<lambda>f. read_or_empty ex_rd (f_path f)) [ex_c] =
     map (\<lambda>f. read_or_empty (\<lambda>p. Some ''echo foxtrot'') (f_path f)) [ex_c_copy] \<and>
   (\<exists>t1 t2 col1 u1 col2 u2.
      parse_chunk ex_rd (ex_state\<lparr>changed := [ex_c]\<rparr>) = Some t1 \<and>
      parse_chunk (\<lambda>p. Some ''echo foxtrot'') (ex_state\<lparr>changed := [ex_c_copy]\<rparr>) = Some t2 \<and>
      vector_ids ''m1'' t1 = [''h3:0''] \<and> vector_ids ''m2'' t2 = [''h3:0''] \<and>
      upsert_vectors ''m1'' Map.empty (t1\<lparr>embeddings := [[1]]\<rparr>) = Inr (col1, u1) \<and>
      upsert_vectors ''m2'' col1 (t2\<lparr>embeddings := [[2]]\<rparr>) = Inr (col2, u2) \<and>
      dom col1 = {''h3:0''} \<and> dom col2 = {''h3:0''})"
proof -
  let ?s1 = "ex_state\<lparr>changed := [ex_c]\<rparr>"
  let ?s2 = "ex_state\<lparr>changed := [ex_c_copy]\<rparr>"
  let ?rd2 = "\<lambda>p::string. Some ''echo foxtrot''"
  have h1: "map f_sha256 (changed ?s1) = map f_sha256 (changed ?s2)"
    by (simp add: ex_state_def ex_c_def ex_c_copy_def)
  have h2: "map (\<lambda>f. read_or_empty ex_rd (f_path f)) (changed ?s1) =
            map (\<lambda>f. read_or_empty ?rd2 (f_path f)) (changed ?s2)"
    by (simp add: ex_state_def ex_c_def ex_c_copy_def read_or_empty_def ex_rd_def)
  from vector_ids_idempotent[OF h1 h2, of "''m1''" "''m2''"]
  obtain t1 t2 where p1: "parse_chunk ex_rd ?s1 = Some t1"
    and p2: "parse_chunk ?rd2 ?s2 = Some t2"
    and v1: "vector_ids ''m1'' t1 =
       ids_of_content (map (\<lambda>f. (f_sha256 f, read_or_empty ex_rd (f_path f))) (changed ?s1))"
    and v2: "vector_ids ''m2'' t2 = vector_ids ''m1'' t1"
    and st: "\<forall>col col1 col2 u1 u2 e1 e2.
        upsert_vectors ''m1'' col (t1\<lparr>embeddings := e1\<rparr>) = Inr (col1, u1) \<longrightarrow>
        upsert_vectors ''m2'' col1 (t2\<lparr>embeddings := e2\<rparr>) = Inr (col2, u2) \<longrightarrow>
        dom col1 = dom col \<union> set (vector_ids ''m1'' t1) \<and> dom col2 = dom col1"
    by (elim exE conjE) (rule that)
  have "ids_of_content (map (\<lambda>f. (f_sha256 f, read_or_empty ex_rd (f_path f))) (changed ?s1)) =
        [''h3:0'']"
    by (simp add: ex_state_def ex_c_def read_or_empty_def ex_rd_def ids_of_content_def
        chunk_text_def chunk_loop.simps py_slice_def py_index_def str_nat.simps[of 0]
        digit_char_def)
  with v1 v2 have ids: "vector_ids ''m1'' t1 = [''h3:0'']" "vector_ids ''m2'' t2 = [''h3:0'']"
    by simp_all
  have "\<exists>col1 u1. upsert_vectors ''m1'' Map.empty
          ((the (parse_chunk ex_rd ?s1))\<lparr>embeddings := [[1]]\<rparr>) = Inr (col1, u1)"
    by (simp add: parse_chunk_def ex_rd_def ex_state_def read_or_empty_def ex_c_def
        chunk_text_def chunk_loop.simps py_slice_def py_index_def file_chunks_def
        enumerate_eq_zip upsert_vectors_def col_upsert_def)
  then obtain col1 u1 where
    u1: "upsert_vectors ''m1'' Map.empty (t1\<lparr>embeddings := [[1]]\<rparr>) = Inr (col1, u1)"
    using p1 by auto
  have "\<exists>col2 u2. upsert_vectors ''m2'' col1
          ((the (parse_chunk ?rd2 ?s2))\<lparr>embeddings := [[2]]\<rparr>) = Inr (col2, u2)"
    by (simp add: parse_chunk_def ex_state_def read_or_empty_def ex_c_def ex_c_copy_def
        chunk_text_def chunk_loop.simps py_slice_def py_index_def file_chunks_def
        enumerate_eq_zip upsert_vectors_def col_upsert_def)
  then obtain col2 u2 where
    u2: "upsert_vectors ''m2'' col1 (t2\<lparr>embeddings := [[2]]\<rparr>) = Inr (col2, u2)"
    using p2 by auto
  from st u1 u2 have "dom col1 = dom Map.empty \<union> set (vector_ids ''m1'' t1) \<and> dom col2 = dom col1"
    by blast
  then have d: "dom col1 = {''h3:0''}" "dom col2 = {''h3:0''}"
    using ids by simp_all
  have g1: "map f_sha256 [ex_c] = map f_sha256 [ex_c_copy]"
    using h1 by (simp add: ex_state_def)
  have g2: "map (\<lambda>f. read_or_empty ex_rd (f_path f)) [ex_c] =
     map (\<lambda>f. read_or_empty (\<lambda>p. Some ''echo foxtrot'') (f_path f)) [ex_c_copy]"
    using h2 by (simp add: ex_state_def)
  show ?thesis
    apply (intro conjI g1 g2)
    apply (rule exI[of _ t1], rule exI[of _ t2], rule exI[of _ col1], rule exI[of _ u1],
           rule exI[of _ col2], rule exI[of _ u2])
    apply (intro conjI p1 p2 ids u1 u2 d)
    done
qed

section \<open>Properties of relevance scoring and normalisation\<close>

lemma py_in_empty: "py_in [] s"
  by (cases s) simp_all

lemma split_ws_Nil:
  "split_ws cur s = [] \<Longrightarrow> cur = [] \<and> (\<forall>c\<in>set s. isspace c)"
  by (induction s arbitrary: cur) (auto split: if_splits)

lemma dropWhile_all:
  "\<forall>c\<in>set (dropWhile P xs). P c \<Longrightarrow> dropWhile P xs = []"
  by (metis hd_dropWhile list.set_sel(1))

lemma py_strip_blank:
  assumes "\<forall>c\<in>set (py_strip s). isspace c"
  shows "py_strip s = []"
proof -
  let ?u = "dropWhile isspace s"
  let ?w = "dropWhile isspace (rev ?u)"
  have "\<forall>c\<in>set ?w. isspace c"
    using assms unfolding py_strip_def by (simp only: set_rev)
  then have w: "?w = []" by (rule dropWhile_all)
  show ?thesis unfolding py_strip_def w by (simp only: rev.simps)
qed

lemma query_terms_nonempty:
  assumes "\<not> py_in (py_strip q) t"
  shows "remdups (py_split (py_strip q)) \<noteq> []"
proof
  assume "remdups (py_split (py_strip q)) = []"
  then have "split_ws [] (py_strip q) = []" by (simp add: py_split_def)
  then have "\<forall>c\<in>set (py_strip q). isspace c" using split_ws_Nil by blast
  then have "py_strip q = []" by (rule py_strip_blank)
  then show False using assms py_in_empty by simp
qed

lemma sm_ratio_nonneg: "0 \<le> sm_ratio sm a b"
  by (simp add: sm_ratio_def)

lemma relevance_score_weighted:
  assumes "\<not> py_in (py_strip (py_lower query)) (py_strip (py_lower ttl))"
    and "\<not> py_in (py_strip (py_lower query)) (py_strip (py_lower doc))"
  shows "\<exists>cov tf sim.
           calculate_relevance_score sm query doc ttl =
             Inr (min (cov * 0.5 + min tf 1 * 0.3 + sim * 0.2) 1) \<and>
           0 \<le> cov \<and> 0 \<le> tf \<and> 0 \<le> sim"
proof -
  let ?q = "py_strip (py_lower query)"
  let ?t = "py_strip (py_lower doc)"
  let ?ti = "py_strip (py_lower ttl)"
  let ?c = "?ti @ '' '' @ ?t"
  let ?qt = "remdups (py_split ?q)"
  let ?cov = "real (length (filter (\<lambda>t. t \<in> set (remdups (py_split ?c))) ?qt)) / real (length ?qt)"
  let ?tf = "real (sum_list (map (\<lambda>term. py_count ?c term) ?qt)) / real (length ?qt * 3)"
  let ?sim = "sm_ratio sm ?q (py_prefix ?c 1000)"
  have "?qt \<noteq> []" using assms(2) by (rule query_terms_nonempty)
  then have len: "0 < length ?qt" by simp
  have z: "(length ?qt * 3 = 0) = False" using len by simp
  have p: "(0 < length ?qt) = True" using len by simp
  have a: "py_in ?q ?ti = False" using assms(1) by simp
  have b: "py_in ?q ?t = False" using assms(2) by simp
  have e: "calculate_relevance_score sm query doc ttl =
            Inr (min (?cov * 0.5 + min ?tf 1 * 0.3 + ?sim * 0.2) 1)"
    by (simp only: calculate_relevance_score_def Let_def a b z p if_True if_False)
  have c0: "0 \<le> ?cov" by simp
  have t0: "0 \<le> ?tf" by simp
  have s0: "0 \<le> ?sim" by (rule sm_ratio_nonneg)
  show ?thesis
    by (rule exI[of _ ?cov], rule exI[of _ ?tf], rule exI[of _ ?sim]) (intro conjI e c0 t0 s0)
qed

lemma relevance_score_returns:
  "\<exists>s. calculate_relevance_score sm query doc ttl = Inr s"
proof (cases "py_in (py_strip (py_lower query)) (py_strip (py_lower ttl))")
  case True
  then show ?thesis by (simp add: calculate_relevance_score_def Let_def)
next
  case nt: False
  show ?thesis
  proof (cases "py_in (py_strip (py_lower query)) (py_strip (py_lower doc))")
    case True
    then have "calculate_relevance_score sm query doc ttl = Inr 0.95"
      using nt by (simp add: calculate_relevance_score_def Let_def)
    then show ?thesis by blast
  next
    case False
    from relevance_score_weighted[OF nt False, of sm] show ?thesis by blast
  qed
qed

text \<open>
  Claim C1. For every query, text and title, also an empty or blank query and an empty
  text, \<^verbatim>\<open>calculate_relevance_score\<close> returns a number (the division by the number of
  query terms is never reached with no term, because a blank query is a substring of every
  title) and the number lies between 0 and 1. Floats are modelled as reals; the matcher of
  difflib is any function giving a count of matched characters.
\<close>

theorem relevance_score_bounds:
  "\<exists>s. calculate_relevance_score sm query doc ttl = Inr s \<and> 0 \<le> s \<and> s \<le> 1"
proof (cases "py_in (py_strip (py_lower query)) (py_strip (py_lower ttl))")
  case True
  then have "calculate_relevance_score sm query doc ttl = Inr 1"
    by (simp add: calculate_relevance_score_def Let_def)
  then show ?thesis by simp
next
  case nt: False
  show ?thesis
  proof (cases "py_in (py_strip (py_lower query)) (py_strip (py_lower doc))")
    case True
    then have "calculate_relevance_score sm query doc ttl = Inr 0.95"
      using nt by (simp add: calculate_relevance_score_def Let_def)
    then show ?thesis by (intro exI[of _ "0.95"]) simp
  next
    case False
    from relevance_score_weighted[OF nt False, of sm]
    obtain cov tf sim where
      e: "calculate_relevance_score sm query doc ttl =
            Inr (min (cov * 0.5 + min tf 1 * 0.3 + sim * 0.2) 1)"
      and c0: "0 \<le> cov" and t0: "0 \<le> tf" and s0: "0 \<le> sim"
      by blast
    have "0 \<le> min tf 1" using t0 by simp
    then have "0 \<le> cov * 0.5 + min tf 1 * 0.3 + sim * 0.2"
      using c0 s0 by (intro add_nonneg_nonneg mult_nonneg_nonneg) simp_all
    then have "0 \<le> min (cov * 0.5 + min tf 1 * 0.3 + sim * 0.2) 1 \<and>
               min (cov * 0.5 + min tf 1 * 0.3 + sim * 0.2) 1 \<le> 1"
      by simp
    then show ?thesis using e by blast
  qed
qed

text \<open>
  What the loop of \<^verbatim>\<open>normalize_local_results\<close> computes on hits whose content and path
  can be read: one result per hit, in order, built from the relevance of the query against
  the hit's content and file name, multiplied by 1.2 exactly when \<open>boosted\<close> holds of the
  hit's distance.
\<close>

lemma normalize_local_loop_shape:
  assumes "\<forall>h\<in>set hits. (\<exists>c. hit_content h = Some c) \<and> (\<exists>p. hit_path h = Inr p)"
  shows "\<exists>rs. normalize_local_loop sm q hits acc = Inr (acc @ rs) \<and> length rs = length hits \<and>
     (\<forall>i<length hits. \<exists>c p r.
        hit_content (hits ! i) = Some c \<and> hit_path (hits ! i) = Inr p \<and>
        calculate_relevance_score sm q c (file_name_of p) = Inr r \<and>
        rs ! i = local_result c p (if boosted (h_score (hits ! i)) then r * 1.2 else r))"
  using assms
proof (induction hits arbitrary: acc)
  case Nil
  then show ?case by simp
next
  case (Cons h hits)
  obtain c where c: "hit_content h = Some c" using Cons.prems by auto
  obtain p where p: "hit_path h = Inr p" using Cons.prems by auto
  obtain r where r: "calculate_relevance_score sm q c (file_name_of p) = Inr r"
    using relevance_score_returns by blast
  have rest: "\<forall>h\<in>set hits. (\<exists>c. hit_content h = Some c) \<and> (\<exists>p. hit_path h = Inr p)"
    using Cons.prems by simp
  let ?u = "local_result c p (if boosted (h_score h) then r * 1.2 else r)"
  from Cons.IH[OF rest, of "acc @ [?u]"]
  obtain rs where a: "normalize_local_loop sm q hits (acc @ [?u]) = Inr ((acc @ [?u]) @ rs)"
    and b: "length rs = length hits"
    and d: "\<forall>i<length hits. \<exists>c p r.
        hit_content (hits ! i) = Some c \<and> hit_path (hits ! i) = Inr p \<and>
        calculate_relevance_score sm q c (file_name_of p) = Inr r \<and>
        rs ! i = local_result c p (if boosted (h_score (hits ! i)) then r * 1.2 else r)"
    by (elim exE conjE) (rule that)
  have e: "normalize_local_loop sm q (h # hits) acc = Inr (acc @ (?u # rs))"
    using c p r a by (simp add: Let_def)
  have l: "length (?u # rs) = length (h # hits)" using b by simp
  have g: "\<forall>i<length (h # hits). \<exists>c p r.
        hit_content ((h # hits) ! i) = Some c \<and> hit_path ((h # hits) ! i) = Inr p \<and>
        calculate_relevance_score sm q c (file_name_of p) = Inr r \<and>
        (?u # rs) ! i =
          local_result c p (if boosted (h_score ((h # hits) ! i)) then r * 1.2 else r)"
  proof (intro allI impI)
    fix i assume i: "i < length (h # hits)"
    show "\<exists>c p r.
        hit_content ((h # hits) ! i) = Some c \<and> hit_path ((h # hits) ! i) = Inr p \<and>
        calculate_relevance_score sm q c (file_name_of p) = Inr r \<and>
        (?u # rs) ! i =
          local_result c p (if boosted (h_score ((h # hits) ! i)) then r * 1.2 else r)"
    proof (cases i)
      case 0
      show ?thesis unfolding 0 nth_Cons_0 using c p r by blast
    next
      case (Suc j)
      then have "j < length hits" using i by simp
      with d show ?thesis unfolding Suc nth_Cons_Suc by blast
    qed
  qed
  show ?case by (rule exI[of _ "?u # rs"]) (intro conjI e l g)
qed

text \<open>
  So on such hits \<^verbatim>\<open>normalize_local_results\<close> gives the \<open>i\<close>-th result the score
  \<open>min(1.2 * r, 1.0)\<close> when the \<open>i\<close>-th hit has a distance that is not 0 and is below 0.5,
  and \<open>min(r, 1.0)\<close> in every other case.
\<close>

lemma normalize_local_scores:
  assumes "\<forall>h\<in>set hits. (\<exists>c. hit_content h = Some c) \<and> (\<exists>p. hit_path h = Inr p)"
  shows "\<exists>rs. normalize_local_results sm hits q = Inr rs \<and> length rs = length hits \<and>
     (\<forall>i<length hits. \<exists>c p r.
        hit_content (hits ! i) = Some c \<and> hit_path (hits ! i) = Inr p \<and>
        calculate_relevance_score sm q c (file_name_of p) = Inr r \<and>
        score (rs ! i) =
          (case h_score (hits ! i) of
             Val d \<Rightarrow> if d \<noteq> 0 \<and> d < 0.5 then min (1.2 * r) 1 else min r 1
           | _ \<Rightarrow> min r 1))"
proof -
  from normalize_local_loop_shape[OF assms, of sm q "[]"]
  obtain rs where a: "normalize_local_loop sm q hits [] = Inr rs"
    and b: "length rs = length hits"
    and d: "\<forall>i<length hits. \<exists>c p r.
        hit_content (hits ! i) = Some c \<and> hit_path (hits ! i) = Inr p \<and>
        calculate_relevance_score sm q c (file_name_of p) = Inr r \<and>
        rs ! i = local_result c p (if boosted (h_score (hits ! i)) then r * 1.2 else r)"
    unfolding append_Nil by (elim exE conjE) (rule that)
  have g: "\<forall>i<length hits. \<exists>c p r.
        hit_content (hits ! i) = Some c \<and> hit_path (hits ! i) = Inr p \<and>
        calculate_relevance_score sm q c (file_name_of p) = Inr r \<and>
        score (rs ! i) =
          (case h_score (hits ! i) of
             Val d \<Rightarrow> if d \<noteq> 0 \<and> d < 0.5 then min (1.2 * r) 1 else min r 1
           | _ \<Rightarrow> min r 1)"
  proof (intro allI impI)
    fix i assume "i < length hits"
    with d obtain c p r where
      c: "hit_content (hits ! i) = Some c" and p: "hit_path (hits ! i) = Inr p"
      and r: "calculate_relevance_score sm q c (file_name_of p) = Inr r"
      and u: "rs ! i = local_result c p (if boosted (h_score (hits ! i)) then r * 1.2 else r)"
      by blast
    have "score (rs ! i) =
          (case h_score (hits ! i) of
             Val d \<Rightarrow> if d \<noteq> 0 \<and> d < 0.5 then min (1.2 * r) 1 else min r 1
           | _ \<Rightarrow> min r 1)"
      unfolding u by (simp add: local_result_def boosted_def mult.commute split: entry.splits)
    with c p r show "\<exists>c p r.
        hit_content (hits ! i) = Some c \<and> hit_path (hits ! i) = Inr p \<and>
        calculate_relevance_score sm q c (file_name_of p) = Inr r \<and>
        score (rs ! i) =
          (case h_score (hits ! i) of
             Val d \<Rightarrow> if d \<noteq> 0 \<and> d < 0.5 then min (1.2 * r) 1 else min r 1
           | _ \<Rightarrow> min r 1)"
      by blast
  qed
  show ?thesis
    unfolding normalize_local_results_def by (rule exI[of _ rs]) (intro conjI a b g)
qed

text \<open>
  A hit whose content is \<^verbatim>\<open>None\<close>, or whose \<^verbatim>\<open>meta\<close> is \<^verbatim>\<open>None\<close> while its path is not a
  string, makes the function raise.
\<close>

lemma normalize_local_raises:
  "normalize_local_results sm
     [\<lparr>h_text = Absent, h_content = PyNone, h_path = Absent, h_meta = Absent,
       h_score = Absent\<rparr>] q = Inl AttributeError"
  "normalize_local_results sm
     [\<lparr>h_text = Val ''x'', h_content = Absent, h_path = PyNone, h_meta = PyNone,
       h_score = Absent\<rparr>] q = Inl AttributeError"
  by (simp_all add: normalize_local_results_def hit_path_def meta_path_def hit_content_def
      get_or_empty_def)

text \<open>
  Claim C3. The claim gives every hit at a distance below 0.5, also at exactly 0, the score
  \<open>min(1.2 * r, 1.0)\<close>. Take the hit with the text \<^verbatim>\<open>x\<close> and the query \<^verbatim>\<open>x\<close>, for which
  \<open>r = 0.95\<close> and the claim gives \<open>1.0\<close>. At the distance \<open>0\<close> the code returns \<open>0.95\<close>:
  the test \<^verbatim>\<open>if original_score and original_score < 0.5\<close> reads the best distance there
  is, \<open>0.0\<close>, as false. At the distance \<^verbatim>\<open>1e-9\<close> the same hit gets \<open>1.0\<close>, and at \<open>0.7\<close>
  it gets \<open>0.95\<close>, as the claim says. The source's comments say that a distance below 0.5
  is a good match to boost, and the query pipeline marks a missing distance by \<^verbatim>\<open>None\<close>,
  not by \<open>0\<close>.
\<close>

theorem normalize_local_zero_distance_not_boosted:
  "(0 :: real) < 0.5 \<and>
   hit_content (ex_hit (Val 0)) = Some ''x'' \<and>
   hit_path (ex_hit (Val 0)) = Inr (Some []) \<and>
   file_name_of (Some []) = ''Local Document'' \<and>
   calculate_relevance_score ex_sm ''x'' ''x'' ''Local Document'' = Inr (19 / 20) \<and>
   min (1.2 * (19 / 20)) 1 = (1 :: real) \<and>
   map_sum id (map score) (normalize_local_results ex_sm [ex_hit (Val 0)] ''x'') =
     Inr [19 / 20] \<and>
   map_sum id (map score)
     (normalize_local_results ex_sm
        [ex_hit (Val (1 / 10 ^ 9)), ex_hit (Val 0), ex_hit (Val 0.7)] ''x'') =
     Inr [1, 19 / 20, 19 / 20]"
  by (simp add: normalize_local_results_def local_result_def boosted_def ex_hit_def
      hit_content_def hit_path_def meta_path_def get_or_empty_def file_name_of_def
      calculate_relevance_score_def py_strip_def py_lower_def lower_char_def upper_chars_def
      lower_chars_def isspace_def)

section \<open>Properties of result fusion\<close>

lemma url_keys_append: "url_keys h (xs @ ys) = url_keys h xs @ url_keys h ys"
  by (simp add: url_keys_def List.map_filter_def)

lemma url_keys_single:
  "url_keys h [r] = (case url_key (h r) of None \<Rightarrow> [] | Some u \<Rightarrow> [u])"
  by (simp add: url_keys_def List.map_filter_def split: option.splits)

lemma dedup_loop_distinct:
  "distinct (url_keys h unique) \<Longrightarrow> set (url_keys h unique) \<subseteq> seen_urls \<Longrightarrow>
   distinct (url_keys h (dedup_loop h n rs unique seen_urls seen_fps))"
proof (induction rs arbitrary: unique seen_urls seen_fps)
  case Nil
  then show ?case by simp
next
  case (Cons r rs)
  show ?case
  proof (cases "case url_key (h r) of None \<Rightarrow> False | Some u \<Rightarrow> u \<in> seen_urls")
    case True
    then show ?thesis using Cons by simp
  next
    case nu: False
    show ?thesis
    proof (cases "content_fp (h r) \<in> seen_fps")
      case True
      then show ?thesis using nu Cons by simp
    next
      case nf: False
      let ?u' = "unique @ [r]"
      let ?su = "case url_key (h r) of None \<Rightarrow> seen_urls | Some u \<Rightarrow> insert u seen_urls"
      have d: "distinct (url_keys h ?u')"
        using Cons.prems nu by (auto simp: url_keys_append url_keys_single split: option.splits)
      have s: "set (url_keys h ?u') \<subseteq> ?su"
        using Cons.prems by (auto simp: url_keys_append url_keys_single split: option.splits)
      show ?thesis
      proof (cases "n \<le> int (length ?u')")
        case True
        then have "dedup_loop h n (r # rs) unique seen_urls seen_fps = ?u'"
          using nu nf by simp
        then show ?thesis using d by simp
      next
        case False
        then have "dedup_loop h n (r # rs) unique seen_urls seen_fps =
            dedup_loop h n rs ?u' ?su
              (if content_fp (h r) \<noteq> [] then insert (content_fp (h r)) seen_fps else seen_fps)"
          using nu nf by simp
        then show ?thesis using Cons.IH[OF d s] by simp
      qed
    qed
  qed
qed

lemma url_keys_mset:
  "mset xs = mset ys \<Longrightarrow> distinct (url_keys h xs) = distinct (url_keys h ys)"
proof -
  assume "mset xs = mset ys"
  then have "mset (map f (filter P xs)) = mset (map f (filter P ys))" for f :: "ref \<Rightarrow> string" and P
    by (metis mset_filter mset_map)
  then have "mset (url_keys h xs) = mset (url_keys h ys)"
    unfolding url_keys_def List.map_filter_def by blast
  then show ?thesis by (rule mset_eq_imp_distinct_iff)
qed

lemma py_index_zero: "py_index m 0 = 0"
  by (simp add: py_index_def)

lemma py_prefix_eq: "py_prefix xs n = take (py_index (length xs) n) xs"
  by (simp add: py_prefix_def py_slice_def Let_def py_index_zero)

lemma py_prefix_take: "\<exists>k. py_prefix xs n = take k xs"
  using py_prefix_eq by blast

lemma py_prefix_length: "0 \<le> n \<Longrightarrow> int (length (py_prefix xs n)) \<le> n"
  by (simp add: py_prefix_eq py_index_def)

lemma url_keys_take: "distinct (url_keys h xs) \<Longrightarrow> distinct (url_keys h (take k xs))"
proof -
  assume "distinct (url_keys h xs)"
  then have "distinct (url_keys h (take k xs @ drop k xs))" by simp
  then show ?thesis unfolding url_keys_append by simp
qed

lemma rank_unique_distinct: "distinct (url_keys h (rank_unique h ls ws n))"
proof -
  let ?u = "dedup_loop h n (sort_by_score h (ls @ ws)) [] {} {}"
  have "distinct (url_keys h ?u)"
    by (rule dedup_loop_distinct) (simp_all add: url_keys_def List.map_filter_def)
  then have "distinct (url_keys h (sort_by_score h ?u))"
    using url_keys_mset[of "sort_by_score h ?u" ?u h] by (simp add: sort_by_score_def)
  then show ?thesis
    unfolding rank_unique_def using py_prefix_take[of "sort_by_score h ?u" n] url_keys_take
    by metis
qed

lemma url_keys_nth:
  "distinct (url_keys h xs) \<Longrightarrow> i < j \<Longrightarrow> j < length xs \<Longrightarrow>
   url_key (h (xs ! i)) = Some u \<Longrightarrow> url_key (h (xs ! j)) \<noteq> Some u"
proof (induction xs arbitrary: i j)
  case Nil
  then show ?case by simp
next
  case (Cons x xs)
  have d: "distinct (url_keys h [x] @ url_keys h xs)"
    using Cons.prems(1) url_keys_append[of h "[x]" xs] by simp
  obtain j' where j: "j = Suc j'" using Cons.prems(2) by (cases j) auto
  show ?case
  proof (cases i)
    case 0
    then have "url_key (h x) = Some u" using Cons.prems(4) by simp
    then have "u \<notin> set (url_keys h xs)" using d by (simp add: url_keys_single)
    moreover have "j' < length xs" using Cons.prems(3) j by simp
    ultimately show ?thesis
      unfolding j nth_Cons_Suc
      by (force simp: url_keys_def List.map_filter_def)
  next
    case (Suc i')
    have "distinct (url_keys h xs)" using d by simp
    from Cons.IH[OF this, of i' j'] show ?thesis
      using Cons.prems Suc j by simp
  qed
qed

lemma url_key_Some: "url_key r = Some u \<longleftrightarrow> url r = Some u \<and> u \<noteq> []"
  by (auto simp: url_key_def split: option.splits)

text \<open>
  Claim C4, as amended. For every store, every pair of input lists and every
  \<^verbatim>\<open>max_results = N\<close>: under every strategy other than \<^verbatim>\<open>"interleaved"\<close> the returned list
  holds at most one result per URL that is neither \<^verbatim>\<open>None\<close> nor the empty string (two
  positions of the output never carry the same such URL); and under every strategy, also
  \<^verbatim>\<open>"interleaved"\<close>, the returned list has at most \<open>N\<close> elements when \<open>N\<close> is not negative.
\<close>

theorem merge_dedup_and_cap:
  "case merge_and_rank_results h ls ws strategy n of
     (h', out) \<Rightarrow>
       (strategy \<noteq> ''interleaved'' \<longrightarrow>
          distinct (url_keys h' out) \<and>
          (\<forall>i j u. i < j \<longrightarrow> j < length out \<longrightarrow> u \<noteq> [] \<longrightarrow>
             url (h' (out ! i)) = Some u \<longrightarrow> url (h' (out ! j)) \<noteq> Some u)) \<and>
       (0 \<le> n \<longrightarrow> int (length out) \<le> n)"
proof -
  have idx: "\<forall>i j u. i < j \<longrightarrow> j < length (rank_unique g ls ws n) \<longrightarrow> u \<noteq> [] \<longrightarrow>
             url (g (rank_unique g ls ws n ! i)) = Some u \<longrightarrow>
             url (g (rank_unique g ls ws n ! j)) \<noteq> Some u" for g
  proof (intro allI impI)
    fix i j u
    assume a: "i < j" "j < length (rank_unique g ls ws n)" "u \<noteq> []"
      "url (g (rank_unique g ls ws n ! i)) = Some u"
    then have "url_key (g (rank_unique g ls ws n ! i)) = Some u" by (simp add: url_key_Some)
    from url_keys_nth[OF rank_unique_distinct a(1) a(2) this]
    show "url (g (rank_unique g ls ws n ! j)) \<noteq> Some u" using a(3) by (simp add: url_key_Some)
  qed
  have len: "0 \<le> n \<longrightarrow> int (length (rank_unique g ls ws n)) \<le> n" for g
    by (simp add: rank_unique_def py_prefix_length)
  have R: "(strategy \<noteq> ''interleaved'' \<longrightarrow>
          distinct (url_keys g (rank_unique g ls ws n)) \<and>
          (\<forall>i j u. i < j \<longrightarrow> j < length (rank_unique g ls ws n) \<longrightarrow> u \<noteq> [] \<longrightarrow>
             url (g (rank_unique g ls ws n ! i)) = Some u \<longrightarrow>
             url (g (rank_unique g ls ws n ! j)) \<noteq> Some u)) \<and>
       (0 \<le> n \<longrightarrow> int (length (rank_unique g ls ws n)) \<le> n)" for g
    using idx[of g] len[of g] rank_unique_distinct[of g ls ws n] by blast
  consider (lf) "strategy = ''local_first''" | (wf) "strategy = ''web_first''"
    | (il) "strategy = ''interleaved''"
    | (ba) "strategy \<noteq> ''local_first''" "strategy \<noteq> ''web_first''" "strategy \<noteq> ''interleaved''"
    by blast
  then show ?thesis
  proof cases
    case lf
    then show ?thesis using R[of "boost_loop h ls"] by (simp add: merge_and_rank_results_def)
  next
    case wf
    then show ?thesis using R[of "boost_loop h ws"] by (simp add: merge_and_rank_results_def)
  next
    case il
    then show ?thesis by (simp add: merge_and_rank_results_def py_prefix_length)
  next
    case ba
    then show ?thesis using R[of h] by (simp add: merge_and_rank_results_def)
  qed
qed


lemmas ex_merge_simps =
  merge_and_rank_results_def rank_unique_def sort_by_score_def ex_store_def ex_result_def
  url_key_def content_fp_def py_strip_def isspace_def py_lower_def lower_char_def upper_chars_def lower_chars_def
  py_prefix_def py_slice_def py_index_def

theorem merge_dedup_and_cap_witness:
  "''balanced'' \<noteq> ''interleaved'' \<and> (0 :: int) \<le> 2 \<and>
   snd (merge_and_rank_results ex_store [0, 2] [1, 3] ''balanced'' 10) = [0, 2, 3] \<and>
   snd (merge_and_rank_results ex_store [0, 2] [1, 3] ''balanced'' 2) = [0, 2] \<and>
   url (ex_store 0) = url (ex_store 1)"
proof -
  have a: "snd (merge_and_rank_results ex_store [0, 2] [1, 3] ''balanced'' 10) = [0, 2, 3]"
    by (simp add: ex_merge_simps)
  have b: "snd (merge_and_rank_results ex_store [0, 2] [1, 3] ''balanced'' 2) = [0, 2]"
    by (simp add: ex_merge_simps)
  have c: "url (ex_store 0) = url (ex_store 1)" by (simp add: ex_store_def ex_result_def)
  have "int (length (snd (merge_and_rank_results ex_store [0, 2] [1, 3] ''balanced'' 2))) \<le> 2"
    using merge_dedup_and_cap[where h = ex_store and ls = "[0, 2]" and ws = "[1, 3]"
        and strategy = "''balanced''" and n = 2]
    by (simp add: split_beta)
  then show ?thesis using a b c by simp
qed

text \<open>
  The interleaved strategy returns both of two results with the same URL; under the
  balanced strategy two results whose URL is the empty string are both kept, because
  \<^verbatim>\<open>if result.url\<close> reads the empty string as no URL; and with \<^verbatim>\<open>max_results = -1\<close> the
  slice \<^verbatim>\<open>merged[:-1]\<close> drops one element only, so three results are more than \<open>N\<close>.
\<close>

theorem merge_interleaved_counterexample:
  "snd (merge_and_rank_results ex_store [0] [1] ''interleaved'' 10) = [0, 1] \<and>
   url (ex_store 0) = Some ''https://a'' \<and> url (ex_store 1) = Some ''https://a'' \<and>
   snd (merge_and_rank_results ex_store [2] [3] ''balanced'' 10) = [2, 3] \<and>
   url (ex_store 2) = Some [] \<and> url (ex_store 3) = Some [] \<and>
   snd (merge_and_rank_results ex_store [0, 2] [1, 3] ''interleaved'' (- 1)) = [0, 1, 2] \<and>
   \<not> int (length [0, 1, 2 :: ref]) \<le> - 1"
  by (simp add: ex_merge_simps)

lemma boost_loop_at:
  "boost_loop h rs p = (h p)\<lparr>score := (reweight ^^ count_list rs p) (score (h p))\<rparr>"
proof (induction rs arbitrary: h)
  case Nil
  then show ?case by simp
next
  case (Cons r rs)
  show ?case
  proof (cases "p = r")
    case True
    define X where "X = (h r)\<lparr>score := reweight (score (h r))\<rparr>"
    have "boost_loop h (r # rs) r = boost_loop (h(r := X)) rs r"
      by (simp add: reweight_def X_def)
    also have "\<dots> = ((h(r := X)) r)\<lparr>score := (reweight ^^ count_list rs r) (score ((h(r := X)) r))\<rparr>"
      using Cons.IH[of "h(r := X)"] True by blast
    also have "\<dots> = X\<lparr>score := (reweight ^^ count_list rs r) (score X)\<rparr>"
      by simp
    also have "\<dots> = (h r)\<lparr>score := (reweight ^^ Suc (count_list rs r)) (score (h r))\<rparr>"
      by (simp add: X_def funpow_swap1)
    finally show ?thesis using True by simp
  next
    case False
    then show ?thesis by (simp add: Cons.IH)
  qed
qed

lemma dedup_loop_set:
  "set (dedup_loop h n rs unique seen_urls seen_fps) \<subseteq> set unique \<union> set rs"
proof (induction rs arbitrary: unique seen_urls seen_fps)
  case Nil
  then show ?case by simp
next
  case (Cons r rs)
  have a: "set (dedup_loop h n rs unique seen_urls seen_fps) \<subseteq> set unique \<union> set (r # rs)"
    using Cons.IH[of unique seen_urls seen_fps] by auto
  have b: "set (dedup_loop h n rs (unique @ [r]) su sf) \<subseteq> set unique \<union> set (r # rs)" for su sf
    using Cons.IH[of "unique @ [r]" su sf] by auto
  show ?case using a b by (simp del: set_simps) auto
qed

lemma rank_unique_set: "set (rank_unique h ls ws n) \<subseteq> set ls \<union> set ws"
proof -
  have "set (rank_unique h ls ws n) \<subseteq>
        set (sort_by_score h (dedup_loop h n (sort_by_score h (ls @ ws)) [] {} {}))"
    unfolding rank_unique_def py_prefix_eq by (rule set_take_subset)
  also have "\<dots> \<subseteq> set (sort_by_score h (ls @ ws))"
    using dedup_loop_set[of h n "sort_by_score h (ls @ ws)" "[]" "{}" "{}"]
    by (simp add: sort_by_score_def)
  finally show ?thesis by (simp add: sort_by_score_def)
qed


lemma count_list_distinct: "distinct xs \<Longrightarrow> x \<in> set xs \<Longrightarrow> count_list xs x = 1"
  by (induction xs) auto

lemma count_list_notin: "x \<notin> set xs \<Longrightarrow> count_list xs x = 0"
  by (induction xs) auto

lemma boost_loop_effect:
  "(\<forall>p. boost_loop h bl p = (h p)\<lparr>score := (reweight ^^ count_list bl p) (score (h p))\<rparr>) \<and>
   (distinct bl \<longrightarrow> (\<forall>p\<in>set bl. score (boost_loop h bl p) = min (score (h p) * 1.3) 1)) \<and>
   (\<forall>p. p \<notin> set bl \<longrightarrow> boost_loop h bl p = h p) \<and>
   (\<forall>p. score (boost_loop (boost_loop h bl) bl p) =
        (reweight ^^ count_list bl p) ((reweight ^^ count_list bl p) (score (h p)))) \<and>
   (distinct bl \<longrightarrow> (\<forall>p\<in>set bl. score (boost_loop (boost_loop h bl) bl p) =
        min (min (score (h p) * 1.3) 1 * 1.3) 1))"
proof (intro conjI allI impI ballI)
  fix p
  show "boost_loop h bl p = (h p)\<lparr>score := (reweight ^^ count_list bl p) (score (h p))\<rparr>"
    by (rule boost_loop_at)
  show "score (boost_loop (boost_loop h bl) bl p) =
        (reweight ^^ count_list bl p) ((reweight ^^ count_list bl p) (score (h p)))"
    by (simp add: boost_loop_at[of "boost_loop h bl"] boost_loop_at[of h])
next
  fix p assume "distinct bl" "p \<in> set bl"
  then have c: "count_list bl p = 1" by (rule count_list_distinct)
  show "score (boost_loop h bl p) = min (score (h p) * 1.3) 1"
    by (simp add: boost_loop_at[of h] c reweight_def)
  show "score (boost_loop (boost_loop h bl) bl p) = min (min (score (h p) * 1.3) 1 * 1.3) 1"
    by (simp add: boost_loop_at[of "boost_loop h bl"] boost_loop_at[of h] c reweight_def)
next
  fix p assume "p \<notin> set bl"
  then have "count_list bl p = 0" by (rule count_list_notin)
  then show "boost_loop h bl p = h p" by (simp add: boost_loop_at[of h])
qed

text \<open>
  Claim C10, as amended. Under \<^verbatim>\<open>"local_first"\<close> (respectively \<^verbatim>\<open>"web_first"\<close>) the call
  leaves the caller's objects re-weighted in the store: an object that occurs \<open>k\<close> times in
  the local (respectively web) list has had \<open>min(score * 1.3, 1.0)\<close> applied \<open>k\<close> times
  to its score and is otherwise unchanged; so when no object occurs twice in that list,
  every element of it has the score \<open>min(original * 1.3, 1.0)\<close>, and every object outside
  the list is untouched. The returned list holds references to the input objects, not
  copies. Repeating the call on the store it left applies the re-weighting again.
\<close>

theorem merge_reweights_in_place:
  assumes "(strategy = ''local_first'' \<and> bl = ls) \<or> (strategy = ''web_first'' \<and> bl = ws)"
  shows "case merge_and_rank_results h ls ws strategy n of
     (h', out) \<Rightarrow>
       (\<forall>p. h' p = (h p)\<lparr>score := (reweight ^^ count_list bl p) (score (h p))\<rparr>) \<and>
       (distinct bl \<longrightarrow> (\<forall>p\<in>set bl. score (h' p) = min (score (h p) * 1.3) 1)) \<and>
       (\<forall>p. p \<notin> set bl \<longrightarrow> h' p = h p) \<and>
       set out \<subseteq> set ls \<union> set ws \<and>
       (case merge_and_rank_results h' ls ws strategy n of
          (h'', out') \<Rightarrow>
            (\<forall>p. score (h'' p) =
                (reweight ^^ count_list bl p) ((reweight ^^ count_list bl p) (score (h p)))) \<and>
            (distinct bl \<longrightarrow> (\<forall>p\<in>set bl. score (h'' p) =
                min (min (score (h p) * 1.3) 1 * 1.3) 1)))"
proof -
  have m: "merge_and_rank_results g ls ws strategy n =
           (boost_loop g bl, rank_unique (boost_loop g bl) ls ws n)" for g
    using assms by (auto simp: merge_and_rank_results_def)
  show ?thesis
    unfolding m prod.case
    using boost_loop_effect[of h bl] rank_unique_set[of "boost_loop h bl" ls ws n]
    by blast
qed

theorem merge_reweights_in_place_witness:
  "((''local_first'' = ''local_first'' \<and> [0, 2] = [0, 2 :: ref]) \<or>
      (''local_first'' = ''web_first'' \<and> [0, 2] = [1, 3 :: ref])) \<and>
   distinct [0, 2 :: ref] \<and>
   map (\<lambda>p. score (ex_store p)) [0, 1, 2, 3] = [1 / 2, 2 / 5, 3 / 10, 1 / 5] \<and>
   map (\<lambda>p. score (fst (merge_and_rank_results ex_store [0, 2] [1, 3] ''local_first'' 10) p))
     [0, 1, 2, 3] = [13 / 20, 2 / 5, 39 / 100, 1 / 5] \<and>
   map (\<lambda>p. score (fst (merge_and_rank_results
          (fst (merge_and_rank_results ex_store [0, 2] [1, 3] ''local_first'' 10))
          [0, 2] [1, 3] ''local_first'' 10) p))
     [0, 1, 2, 3] = [169 / 200, 2 / 5, 507 / 1000, 1 / 5]"
proof -
  have a: "(''local_first'' = ''local_first'' \<and> [0, 2] = [0, 2 :: ref]) \<or>
      (''local_first'' = ''web_first'' \<and> [0, 2] = [1, 3 :: ref])" by simp
  have s: "map (\<lambda>p. score (ex_store p)) [0, 1, 2, 3] = [1 / 2, 2 / 5, 3 / 10, 1 / 5]"
    by (simp add: ex_store_def ex_result_def)
  from merge_reweights_in_place[OF a, where h = ex_store and n = 10]
  have "\<forall>p. fst (merge_and_rank_results ex_store [0, 2] [1, 3] ''local_first'' 10) p =
          (ex_store p)\<lparr>score := (reweight ^^ count_list [0, 2] p) (score (ex_store p))\<rparr>"
    and "\<forall>p. score (fst (merge_and_rank_results
          (fst (merge_and_rank_results ex_store [0, 2] [1, 3] ''local_first'' 10))
          [0, 2] [1, 3] ''local_first'' 10) p) =
          (reweight ^^ count_list [0, 2] p) ((reweight ^^ count_list [0, 2] p) (score (ex_store p)))"
    by (simp_all add: split_beta)
  then show ?thesis using s by (simp add: reweight_def ex_store_def ex_result_def)
qed

text \<open>
  When the same object stands twice in the local list, the loop re-weights it twice: from
  0.5 to 0.845, not to \<open>min(0.5 * 1.3, 1.0) = 0.65\<close>.
\<close>

theorem merge_reweights_alias_counterexample:
  "score (ex_store 0) = 1 / 2 \<and> min (score (ex_store 0) * 1.3) 1 = 13 / 20 \<and>
   score (fst (merge_and_rank_results ex_store [0, 0] [] ''local_first'' 10) 0) = 169 / 200"
  by (simp add: merge_and_rank_results_def ex_store_def ex_result_def)

section \<open>The web search endpoint\<close>

text \<open>
  Claim C2. With the engine list \<^verbatim>\<open>exa|serper\<close>, exa raising and serper returning one
  result, \<^verbatim>\<open>web_search\<close> answers with the results of serper, but it reports
  \<^verbatim>\<open>engines[0]\<close>, that is \<^verbatim>\<open>exa\<close>, as the engine, and its response has the three keys
  \<^verbatim>\<open>engine\<close>, \<^verbatim>\<open>q\<close> and \<^verbatim>\<open>results\<close> only: no attempt log. The claim, and the repository's
  test \<^verbatim>\<open>test_web_search_fallback_to_serper\<close>, expect \<^verbatim>\<open>serper\<close> and an attempt log that
  records the failure of exa.
\<close>

theorem web_search_fallback_reports_first_engine:
  "web_search fail_exa ok_serper ''exa|serper'' None (Some ''test'') False 3 ''demo'' =
     Inr [(''engine'', VStr ''exa''), (''q'', VStr ''test''),
          (''results'',
           VResults [\<lparr>w_title = Some ''S'', w_url = Some ''https://s'',
                       w_snippet = Some ''serper'', w_source = ''serper''\<rparr>])] \<and>
   map_of [(''engine'', VStr ''exa''), (''q'', VStr ''test'')] ''attempt_errors'' = None"
  by (simp add: web_search_def fail_exa_def ok_serper_def str_or_def py_strip_def isspace_def)

end
